theory Spec2Isabelle
  imports Complex_Main
begin

section \<open>Sparse networks of leaky integrate-and-fire neurons in phase representation\<close>

text \<open>
  The development follows \<^verbatim>\<open>sparsenetworks/system.py\<close>: the class \<^verbatim>\<open>System\<close> (constructor,
  \<^verbatim>\<open>jump_to_next_event\<close>, \<^verbatim>\<open>run\<close>, \<^verbatim>\<open>h\<close>, \<^verbatim>\<open>epsilon\<close>, the generators of the
  connectivity) and the loop of \<^verbatim>\<open>WithOutput.run\<close>.

  \<^item> Floating-point numbers are the reals: arithmetic is exact, and there is no infinity
    and no NaN. In particular \<^verbatim>\<open>np.log(0)\<close> (a uniform draw of exactly \<open>0\<close>) is not
    modelled.
  \<^item> A numpy vector is a list, a two-dimensional array a list of rows. Vectors that the
    source combines element by element have equal lengths in every state the constructor
    builds and a run reaches from it (\<open>shaped\<close>, \<open>System_init_shaped\<close> and \<open>steps_shaped\<close>
    below); the model combines them up to the shortest.
  \<^item> Every Python exception is a value of \<open>py_error\<close>, and a function that can raise
    returns \<open>py_error + 'a\<close>. Rates are Python numbers, so \<^verbatim>\<open>1./l_i\<close> raises for a rate
    of zero; population sizes are natural numbers.
  \<^item> The random generator of numpy is the stream \<open>rand\<close> of uniform draws together with
    the number \<open>drawn\<close> of draws consumed so far.
  \<^item> Writing files is modelled by the list of the tables saved; the progress bar and the
    pickled parameters are left out.
\<close>

subsection \<open>Errors, state and array helpers\<close>

datatype py_error = IndexError | ValueError | ZeroDivisionError | TypeError | UnboundLocalError

record system =
  N :: "nat list"
  N_ext :: "nat list"
  tau :: real
  I_gamma :: "real list \<times> real list"
  t :: real
  events :: "(real \<times> real list) list"
  rates :: "real list"
  external_events :: "real list"
  phases :: "real list"
  weight_matrix :: "real list list"
  rand :: "nat \<Rightarrow> real"
  drawn :: nat

text \<open>\<open>where_idx P xs\<close> is \<^verbatim>\<open>np.where(P(xs))[0]\<close>: the indices whose entry satisfies \<open>P\<close>,
  in increasing order; \<open>put_at idx v xs\<close> is the assignment \<^verbatim>\<open>xs[idx] = v\<close>.\<close>

definition where_idx :: "('a \<Rightarrow> bool) \<Rightarrow> 'a list \<Rightarrow> nat list" where
  "where_idx P xs = filter (\<lambda>k. P (xs ! k)) [0..<length xs]"

definition put_at :: "nat list \<Rightarrow> 'a \<Rightarrow> 'a list \<Rightarrow> 'a list" where
  "put_at idx v xs = fold (\<lambda>k ys. ys[k := v]) idx xs"

fun map3 :: "('a \<Rightarrow> 'b \<Rightarrow> 'c \<Rightarrow> 'd) \<Rightarrow> 'a list \<Rightarrow> 'b list \<Rightarrow> 'c list \<Rightarrow> 'd list" where
  "map3 f (x # xs) (y # ys) (z # zs) = f x y z # map3 f xs ys zs"
| "map3 f _ _ _ = []"

subsection \<open>The phase-update law\<close>

text \<open>\<^verbatim>\<open>System.h\<close>, vectorised as in the source: the logarithm's arguments, the indices
  where the argument is not positive, the patch of those entries to \<open>1\<close> before the
  logarithm, and the sentinel \<open>1.1\<close> written over them afterwards.\<close>

definition log_args :: "system \<Rightarrow> real list \<Rightarrow> real list" where
  "log_args s epsilon =
     map3 (\<lambda>g p ie. exp (- g * p) - g / fst ie * snd ie)
       (snd (I_gamma s)) (phases s) (zip (fst (I_gamma s)) epsilon)"

definition h :: "system \<Rightarrow> real list \<Rightarrow> real list" where
  "h s epsilon =
     (let log_arg = log_args s epsilon;
          too_large = where_idx (\<lambda>x. x \<le> 0) log_arg;
          log_arg = put_at too_large 1 log_arg;
          updated_phases = map2 (\<lambda>g x. - 1 / g * ln x) (snd (I_gamma s)) log_arg;
          updated_phases = put_at too_large (11 / 10) updated_phases
      in updated_phases)"

subsection \<open>One simulation step\<close>

definition and_then :: "py_error + 'a \<Rightarrow> ('a \<Rightarrow> py_error + 'b) \<Rightarrow> py_error + 'b" where
  "and_then m f = (case m of Inl e \<Rightarrow> Inl e | Inr x \<Rightarrow> f x)"

fun foldE :: "('a \<Rightarrow> 'b \<Rightarrow> py_error + 'b) \<Rightarrow> 'a list \<Rightarrow> 'b \<Rightarrow> py_error + 'b" where
  "foldE f [] b = Inr b"
| "foldE f (x # xs) b = and_then (f x b) (foldE f xs)"

text \<open>\<^verbatim>\<open>max()\<close> and \<^verbatim>\<open>min()\<close> of a vector; the callers raise on the empty vector first.\<close>

fun vmax :: "real list \<Rightarrow> real" where
  "vmax [] = 0"
| "vmax (x # xs) = fold max xs x"

fun vmin :: "real list \<Rightarrow> real" where
  "vmin [] = 0"
| "vmin (x # xs) = fold min xs x"

text \<open>\<^verbatim>\<open>get_InterSpikeInterval\<close>: the next arrival time, counted from the clock \<open>t\<close> as it
  stands at the call. A rate of zero raises in the division \<^verbatim>\<open>1./l_i\<close>.\<close>

definition get_InterSpikeInterval :: "system \<Rightarrow> real \<Rightarrow> py_error + real \<times> system" where
  "get_InterSpikeInterval s l_i =
     (if l_i = 0 then Inl ZeroDivisionError
      else Inr (t s - 1 / l_i * ln (rand s (drawn s)), s\<lparr>drawn := Suc (drawn s)\<rparr>))"

text \<open>The search for the external population of neuron \<open>index\<close> (lines 172--176); \<open>dflt\<close> is
  the value \<^verbatim>\<open>rate_index\<close> starts with (\<^verbatim>\<open>None\<close>, or \<open>0\<close> at line 261).\<close>

definition rate_index :: "system \<Rightarrow> nat \<Rightarrow> nat option \<Rightarrow> nat option" where
  "rate_index s index dflt =
     (case find (\<lambda>i. index < sum_list (take i (N_ext s))) [1..<length (rates s) + 1] of
        None \<Rightarrow> dflt
      | Some i \<Rightarrow> Some (i - 1))"

fun redraw :: "nat option \<Rightarrow> nat list \<Rightarrow> real list \<Rightarrow> system \<Rightarrow> py_error + real list \<times> system" where
  "redraw dflt [] ext_vect s = Inr (ext_vect, s)"
| "redraw dflt (index # indices) ext_vect s =
     (if length ext_vect \<le> index then Inl IndexError
      else case rate_index s index dflt of
        None \<Rightarrow> Inl TypeError
      | Some r \<Rightarrow>
          if length (rates s) \<le> r then Inl IndexError
          else and_then (get_InterSpikeInterval s (rates s ! r))
            (\<lambda>(a, s'). redraw dflt indices (ext_vect[index := 1])
               (s'\<lparr>external_events := (external_events s')[index := a]\<rparr>)))"

definition external_spikes :: "nat option \<Rightarrow> system \<Rightarrow> real \<Rightarrow> py_error + real list \<times> system" where
  "external_spikes dflt s dt =
     redraw dflt (where_idx (\<lambda>e. e = t s + dt) (external_events s))
       (replicate (sum_list (N_ext s)) 0) s"

text \<open>Lines 94--108: the time to the next arrival and its \<^verbatim>\<open>location\<close>
  (0 none, 1 internal, 2 external, 3 both).\<close>

definition next_arrival :: "system \<Rightarrow> real \<times> nat" where
  "next_arrival s =
     (let (dt, location) =
            (if events s \<noteq> [] then (fst (hd (events s)) - t s, 1) else (500, 0))
      in if list_ex (\<lambda>e. e \<noteq> 0) (external_events s) then
           let min_dt = vmin (external_events s) - t s
           in if min_dt < dt then (min_dt, 2)
              else if min_dt = dt then (dt, 3)
              else (dt, location)
         else (dt, location))"

datatype branch = SelfThreshold | Tie | Delivery

text \<open>Lines 111, 113, 136 and 219: which of the three branches of the step runs.\<close>

definition branch_of :: "system \<Rightarrow> branch" where
  "branch_of s =
     (let dt = fst (next_arrival s); min_dt = 1 - vmax (phases s)
      in if min_dt < dt then SelfThreshold
         else if min_dt = dt then Tie
         else Delivery)"

text \<open>Lines 121--133 (and 143--154): advance the phases by \<open>dt\<close>, reset those that reached
  \<open>1\<close>, and queue their spikes for arrival at \<open>tau + t + dt\<close>.\<close>

definition fire :: "system \<Rightarrow> real \<Rightarrow> system" where
  "fire s dt =
     (let ph = map (\<lambda>p. p + dt) (phases s);
          spike_id = where_idx (\<lambda>p. p \<ge> 1) ph;
          spikes = put_at spike_id 1 (replicate (length ph) 0);
          ph = map2 (\<lambda>p sp. p - sp * p) ph spikes
      in s\<lparr>phases := ph, events := events s @ [(tau s + t s + dt, spikes)]\<rparr>)"

definition self_threshold :: "system \<Rightarrow> system" where
  "self_threshold s =
     (let min_dt = 1 - vmax (phases s);
          dt = max min_dt 0;
          s1 = fire s dt
      in s1\<lparr>t := t s1 + dt\<rparr>)"

text \<open>The spike vector of the arriving spikes, by \<^verbatim>\<open>location\<close>; with no arrival
  (\<open>location = 0\<close>) the name \<^verbatim>\<open>spike_vector\<close> is never bound and its use raises.\<close>

definition spike_vector :: "nat option \<Rightarrow> nat \<Rightarrow> system \<Rightarrow> real \<Rightarrow> py_error + real list \<times> system" where
  "spike_vector dflt3 location s dt =
     (if location = 1 then
        (case events s of
           [] \<Rightarrow> Inl IndexError
         | e # es \<Rightarrow> Inr (snd e @ replicate (sum_list (N_ext s)) 0, s\<lparr>events := es\<rparr>))
      else if location = 2 then
        and_then (external_spikes None s dt)
          (\<lambda>(ext_vect, s'). Inr (replicate (sum_list (N s)) 0 @ ext_vect, s'))
      else if location = 3 then
        and_then (external_spikes dflt3 s dt)
          (\<lambda>(ext_vect, s').
             case events s' of
               [] \<Rightarrow> Inl IndexError
             | e # es \<Rightarrow> Inr (snd e @ ext_vect, s'\<lparr>events := es\<rparr>))
      else Inl UnboundLocalError)"

text \<open>\<^verbatim>\<open>epsilon\<close>: the product of the weight matrix with the spike vector; scipy raises on
  a vector of the wrong length.\<close>

definition epsilon :: "system \<Rightarrow> real list \<Rightarrow> py_error + real list" where
  "epsilon s sv =
     (if list_all (\<lambda>row. length row = length sv) (weight_matrix s)
      then Inr (map (\<lambda>row. sum_list (map2 (*) row sv)) (weight_matrix s))
      else Inl ValueError)"

definition tie_step :: "system \<Rightarrow> py_error + system" where
  "tie_step s =
     (let location = snd (next_arrival s);
          min_dt = 1 - vmax (phases s);
          neuron_id = where_idx (\<lambda>p. p = vmax (phases s)) (phases s);
          dt = max min_dt 0;
          s1 = fire s dt
      in and_then (spike_vector None location s1 dt)
           (\<lambda>(sv, s2). and_then (epsilon s2 sv)
              (\<lambda>eps.
                 let ph = h s2 eps;
                     ph = fold (\<lambda>k p. if p ! k > 1 then p[k := 0] else p) neuron_id ph
                 in Inr (s2\<lparr>phases := ph, t := t s2 + dt\<rparr>))))"

definition delivery_step :: "system \<Rightarrow> py_error + system" where
  "delivery_step s =
     (let (dt, location) = next_arrival s;
          s1 = s\<lparr>phases := map (\<lambda>p. p + dt) (phases s)\<rparr>
      in and_then (spike_vector (Some 0) location s1 dt)
           (\<lambda>(sv, s2). and_then (epsilon s2 sv)
              (\<lambda>eps. Inr (s2\<lparr>phases := h s2 eps, t := t s2 + dt\<rparr>))))"

text \<open>\<^verbatim>\<open>jump_to_next_event\<close>. \<^verbatim>\<open>self.phases.max()\<close> raises on an empty vector.\<close>

definition jump_to_next_event :: "system \<Rightarrow> py_error + system" where
  "jump_to_next_event s =
     (if phases s = [] then Inl ValueError
      else case branch_of s of
        SelfThreshold \<Rightarrow> Inr (self_threshold s)
      | Tie \<Rightarrow> tie_step s
      | Delivery \<Rightarrow> delivery_step s)"


text \<open>\<open>steps n\<close> runs \<open>n\<close> steps of the simulation, stopping at the first error.\<close>

fun steps :: "nat \<Rightarrow> system \<Rightarrow> py_error + system" where
  "steps 0 s = Inr s"
| "steps (Suc n) s = and_then (jump_to_next_event s) (steps n)"

subsection \<open>Construction\<close>

text \<open>\<open>slice_map lo hi f xs\<close> is the slice assignment \<^verbatim>\<open>xs[lo:hi] = f(xs[lo:hi])\<close>.\<close>

definition slice_map :: "nat \<Rightarrow> nat \<Rightarrow> ('a \<Rightarrow> 'a) \<Rightarrow> 'a list \<Rightarrow> 'a list" where
  "slice_map lo hi f xs = map (\<lambda>(k, x). if lo \<le> k \<and> k < hi then f x else x) (enumerate 0 xs)"

text \<open>Lines 48--58: one value of \<open>I\<close> and of \<open>gamma\<close> per neuron, population by population.
  A parameter list shorter than the population list raises at its first missing entry.\<close>

definition set_I_gamma :: "nat list \<Rightarrow> real list \<Rightarrow> real list \<Rightarrow> py_error + real list \<times> real list" where
  "set_I_gamma Ns I0 gam =
     foldE (\<lambda>i (Ir, Gr).
          if length I0 \<le> i \<or> length gam \<le> i then Inl IndexError
          else let index_i = sum_list (take i Ns)
               in Inr (slice_map index_i (index_i + Ns ! i) (\<lambda>x. x * I0 ! i) Ir,
                       slice_map index_i (index_i + Ns ! i) (\<lambda>x. x * gam ! i) Gr))
       [0..<length Ns] (replicate (sum_list Ns) 1, replicate (sum_list Ns) 1)"

definition get_initial_ISI :: "system \<Rightarrow> py_error + system" where
  "get_initial_ISI s =
     foldE (\<lambda>n. let index_i = sum_list (take n (N_ext s))
                in foldE (\<lambda>i s1.
                     if length (rates s1) \<le> n then Inl IndexError
                     else and_then (get_InterSpikeInterval s1 (rates s1 ! n))
                       (\<lambda>(a, s2). Inr (s2\<lparr>external_events := (external_events s2)[index_i + i := a]\<rparr>)))
                   [0..<N_ext s ! n])
       [0..<length (N_ext s)] s"

definition create_phases :: "system \<Rightarrow> system" where
  "create_phases s =
     s\<lparr>phases := map (\<lambda>k. rand s (drawn s + k)) [0..<sum_list (N s)],
       drawn := drawn s + sum_list (N s)\<rparr>"

text \<open>\<^verbatim>\<open>np.random.rand(rows, cols)\<close>, filled row by row from the stream of draws.\<close>

definition rand_matrix :: "system \<Rightarrow> nat \<Rightarrow> nat \<Rightarrow> real list list \<times> system" where
  "rand_matrix s rows cols =
     (map (\<lambda>a. map (\<lambda>b. rand s (drawn s + a * cols + b)) [0..<cols]) [0..<rows],
      s\<lparr>drawn := drawn s + rows * cols\<rparr>)"

text \<open>\<^verbatim>\<open>.astype(int)\<close> truncates towards zero.\<close>

definition astype_int :: "real \<Rightarrow> int" where
  "astype_int x = (if 0 \<le> x then \<lfloor>x\<rfloor> else \<lceil>x\<rceil>)"

text \<open>The body shared by \<^verbatim>\<open>create_weight_matrix\<close> and \<^verbatim>\<open>create_ext_weight_matrix\<close>:
  \<open>Ns\<close> are the target populations (rows), \<open>Ms\<close> the source populations (columns),
  \<open>r\<close> the matrix of uniform draws.\<close>

definition connect :: "nat list \<Rightarrow> nat list \<Rightarrow> real list list \<Rightarrow> real \<Rightarrow> real list list \<Rightarrow> py_error + real list list" where
  "connect Ns Ms J K r0 =
     foldE (\<lambda>i r.
          let index_i = sum_list (take i Ns);
              p_i = K / real (Ns ! i);
              r = slice_map index_i (index_i + Ns ! i)
                    (map (\<lambda>x. 1 - real_of_int (astype_int (x + (1 - p_i))))) r
          in foldE (\<lambda>j r.
               let index_j = sum_list (take j Ms)
               in if length J \<le> i \<or> length (J ! i) \<le> j then Inl IndexError
                  else Inr (slice_map index_i (index_i + Ns ! i)
                              (slice_map index_j (index_j + Ms ! j) (\<lambda>x. x * J ! i ! j)) r))
             [0..<length Ms] r)
       [0..<length Ns] r0"

definition create_weight_matrix :: "system \<Rightarrow> real list list \<Rightarrow> real \<Rightarrow> py_error + real list list \<times> system" where
  "create_weight_matrix s J_int K =
     (let (r, s') = rand_matrix s (sum_list (N s)) (sum_list (N s))
      in and_then (connect (N s) (N s) J_int K r) (\<lambda>w. Inr (w, s')))"

definition create_ext_weight_matrix :: "system \<Rightarrow> real list list \<Rightarrow> real \<Rightarrow> py_error + real list list \<times> system" where
  "create_ext_weight_matrix s J_ext K =
     (let (r, s') = rand_matrix s (sum_list (N s)) (sum_list (N_ext s))
      in and_then (connect (N s) (N_ext s) J_ext K r) (\<lambda>w. Inr (w, s')))"

text \<open>\<^verbatim>\<open>System.__init__\<close>, with the stream of uniform draws as its last argument.\<close>

definition System_init ::
  "nat list \<Rightarrow> real list list \<Rightarrow> real list \<Rightarrow> real list \<Rightarrow> real \<Rightarrow> real \<Rightarrow> nat list \<Rightarrow> real list list
     \<Rightarrow> real list \<Rightarrow> (nat \<Rightarrow> real) \<Rightarrow> py_error + system" where
  "System_init Ns J_int I0 gam K tau0 Ns_ext J_ext rates0 rnd =
     and_then (set_I_gamma Ns I0 gam)
       (\<lambda>Ig. and_then
          (get_initial_ISI
             \<lparr>N = Ns, N_ext = Ns_ext, tau = tau0, I_gamma = Ig, t = 0, events = [],
              rates = rates0, external_events = replicate (sum_list Ns_ext) 1, phases = [],
              weight_matrix = [], rand = rnd, drawn = 0\<rparr>)
          (\<lambda>s. and_then (create_weight_matrix (create_phases s) J_int K)
             (\<lambda>(w, s). and_then (create_ext_weight_matrix s J_ext K)
                (\<lambda>(we, s). Inr (s\<lparr>weight_matrix := map2 (@) w we\<rparr>)))))"

subsection \<open>The run that writes its output\<close>











subsection \<open>Notions used in the statements\<close>





fun before :: "real \<Rightarrow> real option \<Rightarrow> bool" where
  "before x None = True"
| "before x (Some y) = (x < y)"


text \<open>A network without external sources and without inhibition, whose pending deliveries
  lie between the clock and \<open>tau\<close> after it, in queue order, and whose phases are not
  negative.\<close>

definition quiet :: "system \<Rightarrow> bool" where
  "quiet s \<longleftrightarrow>
     external_events s = [] \<and> 0 \<le> tau s \<and>
     (\<forall>g \<in> set (snd (I_gamma s)). 0 < g) \<and>
     (\<forall>i \<in> set (fst (I_gamma s)). 0 < i) \<and>
     (\<forall>row \<in> set (weight_matrix s). \<forall>w \<in> set row. 0 \<le> w) \<and>
     (\<forall>e \<in> set (events s).
        t s \<le> fst e \<and> fst e \<le> tau s + t s \<and> (\<forall>x \<in> set (snd e). 0 \<le> x)) \<and>
     sorted (map fst (events s)) \<and>
     (\<forall>p \<in> set (phases s). 0 \<le> p)"

text \<open>The shapes the constructor gives the arrays of a network: one phase, one \<open>I\<close>, one
  \<open>gamma\<close> and one row of weights per neuron, one weight per internal and external source
  in every row, one entry per neuron in every queued spike vector, and one arrival time
  per external source.\<close>

definition shaped :: "system \<Rightarrow> bool" where
  "shaped s \<longleftrightarrow>
     length (phases s) = sum_list (N s) \<and>
     length (fst (I_gamma s)) = sum_list (N s) \<and>
     length (snd (I_gamma s)) = sum_list (N s) \<and>
     length (weight_matrix s) = sum_list (N s) \<and>
     (\<forall>row \<in> set (weight_matrix s). length row = sum_list (N s) + sum_list (N_ext s)) \<and>
     (\<forall>e \<in> set (events s). length (snd e) = sum_list (N s)) \<and>
     length (external_events s) = sum_list (N_ext s)"

text \<open>Every entry of a queued spike vector is \<open>0\<close> or \<open>1\<close>.\<close>

definition binary_events :: "system \<Rightarrow> bool" where
  "binary_events s \<longleftrightarrow> (\<forall>e \<in> set (events s). \<forall>x \<in> set (snd e). x = 0 \<or> x = 1)"


text \<open>While the connectivity is generated, the rows of the populations already handled
  hold non-negative entries and the rows from \<open>lo\<close> on still hold the uniform draws.\<close>

definition half_done :: "nat \<Rightarrow> real list list \<Rightarrow> bool" where
  "half_done lo r \<longleftrightarrow>
     (\<forall>a<length r. \<forall>x \<in> set (r ! a). 0 \<le> x \<and> (lo \<le> a \<longrightarrow> x < 1))"

text \<open>What the constructor's loops leave unchanged.\<close>

definition same_sources :: "system \<Rightarrow> system \<Rightarrow> bool" where
  "same_sources s s1 \<longleftrightarrow>
     N s1 = N s \<and> N_ext s1 = N_ext s \<and> rates s1 = rates s \<and> tau s1 = tau s \<and>
     I_gamma s1 = I_gamma s \<and> t s1 = t s \<and> events s1 = events s \<and> rand s1 = rand s"







subsection \<open>Concrete networks\<close>

text \<open>The networks below are states as the constructor returns them (the lemmas
  \<open>*_init\<close> further down); \<open>half_draws\<close> is the stream in which every uniform draw is \<open>1/2\<close>.\<close>

definition half_draws :: "nat \<Rightarrow> real" where
  "half_draws k = 1 / 2"

text \<open>One neuron with an excitatory connection to itself strong enough to saturate it.\<close>

definition unit_neuron :: system where
  "unit_neuron =
     \<lparr>N = [1], N_ext = [], tau = 1 / 20, I_gamma = ([1], [1]), t = 0, events = [],
      rates = [], external_events = [], phases = [1 / 2], weight_matrix = [[1]],
      rand = half_draws, drawn = 2\<rparr>"

text \<open>The same neuron with no transmission delay.\<close>

definition undelayed_neuron :: system where
  "undelayed_neuron = unit_neuron\<lparr>tau := 0\<rparr>"

text \<open>One neuron that inhibits itself.\<close>

definition inhibited_neuron :: system where
  "inhibited_neuron = unit_neuron\<lparr>weight_matrix := [[- 1]]\<rparr>"

text \<open>One neuron with \<open>gamma = 0.2\<close> and a self-connection of strength \<open>2.5\<close>, which does
  not saturate it.\<close>

definition excited_neuron :: system where
  "excited_neuron = unit_neuron\<lparr>I_gamma := ([1], [1 / 5]), weight_matrix := [[5 / 2]]\<rparr>"

text \<open>One neuron inhibited by one external source of rate \<open>1\<close>. The draws place the first
  external spike at \<open>0.3\<close> and give the source an inter-spike interval of \<open>0.1\<close> afterwards.\<close>

definition late_draws :: "nat \<Rightarrow> real" where
  "late_draws k = (if k = 0 then exp (- (3 / 10)) else if k = 4 then exp (- (1 / 10)) else 1 / 2)"

definition late_source :: system where
  "late_source =
     \<lparr>N = [1], N_ext = [1], tau = 1 / 20, I_gamma = ([1], [1]), t = 0, events = [],
      rates = [1], external_events = [3 / 10], phases = [1 / 2], weight_matrix = [[0, - 1]],
      rand = late_draws, drawn = 4\<rparr>"

text \<open>Two populations of one neuron each; both neurons excite the first one. The second
  neuron starts \<open>tau\<close> behind the first.\<close>

definition pair_draws :: "nat \<Rightarrow> real" where
  "pair_draws k = (if k = 1 then 9 / 20 else 1 / 2)"

definition pair_net :: system where
  "pair_net =
     \<lparr>N = [1, 1], N_ext = [], tau = 1 / 20, I_gamma = ([1, 1], [1, 1]), t = 0, events = [],
      rates = [], external_events = [], phases = [1 / 2, 9 / 20],
      weight_matrix = [[1, 1], [0, 0]], rand = pair_draws, drawn = 6\<rparr>"



subsection \<open>Facts about the array helpers\<close>

lemma length_put_at: "length (put_at idx v xs) = length xs"
  unfolding put_at_def by (induction idx arbitrary: xs) simp_all

lemma nth_put_at:
  "k < length xs \<Longrightarrow> put_at idx v xs ! k = (if k \<in> set idx then v else xs ! k)"
  unfolding put_at_def
proof (induction idx arbitrary: xs)
  case Nil
  then show ?case by simp
next
  case (Cons a idx)
  then show ?case by (cases "a = k") (auto simp: nth_list_update)
qed

lemma length_map3:
  "length (map3 f xs ys zs) = min (length xs) (min (length ys) (length zs))"
  by (induction f xs ys zs rule: map3.induct) simp_all

lemma nth_map3:
  "k < length xs \<Longrightarrow> k < length ys \<Longrightarrow> k < length zs \<Longrightarrow>
     map3 f xs ys zs ! k = f (xs ! k) (ys ! k) (zs ! k)"
proof (induction f xs ys zs arbitrary: k rule: map3.induct)
  case (1 f x xs y ys z zs)
  then show ?case by (cases k) simp_all
qed simp_all

lemma set_where_idx: "set (where_idx P xs) = {k. k < length xs \<and> P (xs ! k)}"
  by (auto simp: where_idx_def)

lemma spikes_eq:
  "put_at (where_idx (\<lambda>p. 1 \<le> p) ph) 1 (replicate (length ph) 0) =
     map (\<lambda>p. if 1 \<le> p then 1 else (0::real)) ph"
  by (rule nth_equalityI) (simp_all add: length_put_at nth_put_at set_where_idx)

subsection \<open>Facts about the phase-update law and the reset\<close>

lemma length_log_args:
  "length (log_args s eps) =
     min (length (snd (I_gamma s)))
       (min (length (phases s)) (min (length (fst (I_gamma s))) (length eps)))"
  by (simp add: log_args_def length_map3)

lemma nth_log_args:
  "k < length (log_args s eps) \<Longrightarrow>
   log_args s eps ! k =
     exp (- (snd (I_gamma s) ! k) * (phases s ! k))
       - (snd (I_gamma s) ! k) / (fst (I_gamma s) ! k) * (eps ! k)"
  by (simp add: log_args_def length_map3 nth_map3)

lemma length_h: "length (h s eps) = length (log_args s eps)"
  by (simp add: h_def Let_def length_put_at length_log_args)

lemma nth_h:
  assumes "k < length (log_args s eps)"
  shows "h s eps ! k =
     (if log_args s eps ! k \<le> 0 then 11 / 10
      else - 1 / (snd (I_gamma s) ! k) * ln (log_args s eps ! k))"
proof -
  have "k < length (snd (I_gamma s))"
    using assms by (simp add: length_log_args)
  then show ?thesis
    using assms by (simp add: h_def Let_def length_put_at nth_put_at set_where_idx)
qed

text \<open>The reset in closed form: a phase that reached \<open>1\<close> becomes \<open>0\<close> and is marked in the
  queued spike vector.\<close>

lemma fire_eq:
  "fire s dt =
     s\<lparr>phases := map (\<lambda>p. if 1 \<le> p + dt then 0 else p + dt) (phases s),
       events := events s @
         [(tau s + t s + dt, map (\<lambda>p. if 1 \<le> p + dt then 1 else 0) (phases s))]\<rparr>"
proof -
  have "map2 (\<lambda>p sp. p - sp * p) (map (\<lambda>p. p + dt) (phases s))
          (map (\<lambda>p. if 1 \<le> p then 1 else (0::real)) (map (\<lambda>p. p + dt) (phases s))) =
        map (\<lambda>p. if 1 \<le> p + dt then 0 else p + dt) (phases s)"
    by (rule nth_equalityI) simp_all
  then show ?thesis
    by (simp add: fire_def Let_def spikes_eq comp_def)
qed

subsection \<open>Facts about runs\<close>



subsection \<open>Facts about networks without external sources and inhibition\<close>

lemma h_nonneg:
  assumes "\<forall>g \<in> set (snd (I_gamma s)). 0 < g" and "\<forall>i \<in> set (fst (I_gamma s)). 0 < i"
    and "\<forall>p \<in> set (phases s). 0 \<le> p" and "\<forall>e \<in> set eps. 0 \<le> e"
  shows "\<forall>p \<in> set (h s eps). 0 \<le> p"
proof
  fix p assume "p \<in> set (h s eps)"
  then obtain k where k: "k < length (h s eps)" and p: "p = h s eps ! k"
    by (auto simp: in_set_conv_nth)
  from k have kl: "k < length (log_args s eps)" by (simp add: length_h)
  then have kk: "k < length (snd (I_gamma s))" "k < length (fst (I_gamma s))"
    "k < length (phases s)" "k < length eps"
    by (simp_all add: length_log_args)
  define g where "g = snd (I_gamma s) ! k"
  define i where "i = fst (I_gamma s) ! k"
  define ph where "ph = phases s ! k"
  define e where "e = eps ! k"
  have g: "0 < g" and i: "0 < i" and ph: "0 \<le> ph" and e: "0 \<le> e"
    using assms kk by (simp_all add: g_def i_def ph_def e_def)
  define la where "la = exp (- g * ph) - g / i * e"
  have la: "log_args s eps ! k = la"
    using kl by (simp add: nth_log_args la_def g_def i_def ph_def e_def)
  have "exp (- g * ph) \<le> 1" using g ph by simp
  moreover have "0 \<le> g / i * e" using g i e by simp
  ultimately have le1: "la \<le> 1" unfolding la_def by linarith
  show "0 \<le> p"
  proof (cases "la \<le> 0")
    case True
    then show ?thesis using p kl la by (simp add: nth_h)
  next
    case False
    then have "ln la \<le> 0" using le1 by simp
    then have "0 \<le> - 1 / g * ln la"
      using g by (simp add: mult_nonneg_nonpos2 divide_nonpos_pos zero_le_mult_iff)
    then show ?thesis using p kl la False by (simp add: nth_h g_def)
  qed
qed

lemma epsilon_nonneg:
  assumes "epsilon s sv = Inr eps"
    and "\<forall>row \<in> set (weight_matrix s). \<forall>w \<in> set row. 0 \<le> w"
    and "\<forall>x \<in> set sv. 0 \<le> x"
  shows "\<forall>e \<in> set eps. 0 \<le> e"
proof -
  have "0 \<le> sum_list (map2 (*) row sv)" if "row \<in> set (weight_matrix s)" for row
  proof (rule sum_list_nonneg)
    fix x assume "x \<in> set (map2 (*) row sv)"
    then obtain a b where "(a, b) \<in> set (zip row sv)" "x = a * b" by auto
    then have "a \<in> set row" "b \<in> set sv" "x = a * b"
      by (auto dest: set_zip_leftD set_zip_rightD)
    then show "0 \<le> x" using assms(2,3) that by simp
  qed
  then show ?thesis
    using assms(1) by (auto simp: epsilon_def split: if_splits)
qed

lemma reset_nonneg:
  "\<forall>p \<in> set ph. (0::real) \<le> p \<Longrightarrow>
     \<forall>p \<in> set (fold (\<lambda>k p. if p ! k > 1 then p[k := 0] else p) ids ph). 0 \<le> p"
proof (induction ids arbitrary: ph)
  case Nil
  then show ?case by simp
next
  case (Cons k ids)
  have "\<forall>p \<in> set (if ph ! k > 1 then ph[k := 0] else ph). 0 \<le> p"
    using Cons.prems set_update_subset_insert [of ph k 0] by auto
  from Cons.IH [OF this] show ?case by simp
qed

lemma quiet_next_arrival:
  "external_events s = [] \<Longrightarrow>
     next_arrival s = (if events s = [] then (500, 0) else (fst (hd (events s)) - t s, 1))"
  by (simp add: next_arrival_def)

lemma length_epsilon: "epsilon s sv = Inr eps \<Longrightarrow> length eps = length (weight_matrix s)"
  by (auto simp: epsilon_def split: if_splits)

lemma length_reset:
  "length (fold (\<lambda>k p. if p ! k > 1 then p[k := 0] else p) ids ph) = length (ph :: real list)"
  by (induction ids arbitrary: ph) simp_all

lemma vmax_in_set: "xs \<noteq> [] \<Longrightarrow> vmax xs \<in> set xs"
proof (cases xs)
  case Nil
  then show "xs \<noteq> [] \<Longrightarrow> vmax xs \<in> set xs" by simp
next
  case (Cons x ys)
  have "vmax (x # ys) = Max (set (x # ys))"
    using Max.set_eq_fold [of x ys] by simp
  then show ?thesis using Cons Max_in [of "set (x # ys)"] by simp
qed

lemma quiet_self_threshold:
  assumes "quiet s" and "branch_of s = SelfThreshold"
  shows "quiet (self_threshold s) \<and> t s \<le> t (self_threshold s)
     \<and> (shaped s \<longrightarrow> shaped (self_threshold s)) \<and> N (self_threshold s) = N s"
proof -
  define dt where "dt = max (1 - vmax (phases s)) 0"
  have dt: "0 \<le> dt" by (simp add: dt_def)
  have st: "self_threshold s =
      s\<lparr>phases := map (\<lambda>p. if 1 \<le> p + dt then 0 else p + dt) (phases s),
        events := events s @ [(tau s + t s + dt, map (\<lambda>p. if 1 \<le> p + dt then 1 else 0) (phases s))],
        t := t s + dt\<rparr>"
    by (simp add: self_threshold_def Let_def fire_eq dt_def)
  have ext: "external_events s = []" using assms(1) by (simp add: quiet_def)
  have before: "t s + dt \<le> fst e" if "e \<in> set (events s)" for e
  proof -
    from that have ne: "events s \<noteq> []" by auto
    from assms(1) have srt: "sorted (map fst (events s))" and lo: "t s \<le> fst e"
      using that by (simp_all add: quiet_def)
    have "fst (hd (events s)) \<le> fst e"
      using srt that ne by (cases "events s") auto
    moreover have "1 - vmax (phases s) < fst (hd (events s)) - t s"
      using assms(2) ne ext by (simp add: branch_of_def Let_def quiet_next_arrival split: if_splits)
    ultimately show ?thesis using lo by (simp add: dt_def)
  qed
  have "quiet (self_threshold s)"
    unfolding st using assms(1) dt before
    by (auto simp: quiet_def sorted_append add.assoc intro: add_increasing2 order_trans)
  moreover have "t s \<le> t (self_threshold s)"
    unfolding st using dt by simp
  moreover have "shaped s \<longrightarrow> shaped (self_threshold s)"
    unfolding st by (auto simp: shaped_def)
  moreover have "N (self_threshold s) = N s"
    unfolding st by simp
  ultimately show ?thesis by blast
qed

lemma quiet_delivery_step:
  assumes "quiet s" and "delivery_step s = Inr s'"
  shows "quiet s' \<and> t s \<le> t s' \<and> (shaped s \<longrightarrow> shaped s') \<and> N s' = N s"
proof -
  have ext: "external_events s = []" using assms(1) by (simp add: quiet_def)
  have ne: "events s \<noteq> []"
  proof
    assume "events s = []"
    then have "delivery_step s = Inl UnboundLocalError"
      using ext by (simp add: delivery_step_def quiet_next_arrival spike_vector_def and_then_def)
    with assms(2) show False by simp
  qed
  then obtain e es where ev: "events s = e # es" by (cases "events s") auto
  define dt where "dt = fst e - t s"
  define sv where "sv = snd e @ replicate (sum_list (N_ext s)) (0::real)"
  define s2 where "s2 = s\<lparr>phases := map (\<lambda>p. p + dt) (phases s), events := es\<rparr>"
  have dt: "0 \<le> dt" using assms(1) ev by (simp add: quiet_def dt_def)
  have unfold: "delivery_step s =
      and_then (epsilon s2 sv) (\<lambda>eps. Inr (s2\<lparr>phases := h s2 eps, t := t s2 + dt\<rparr>))"
    unfolding dt_def sv_def s2_def using ext ev
    by (simp add: delivery_step_def Let_def quiet_next_arrival spike_vector_def and_then_def
          split: sum.splits)
  with assms(2) obtain eps where eps: "epsilon s2 sv = Inr eps"
    and s': "s' = s2\<lparr>phases := h s2 eps, t := t s2 + dt\<rparr>"
    by (auto simp: and_then_def split: sum.splits)
  have svpos: "\<forall>x \<in> set sv. 0 \<le> x"
    using assms(1) ev by (auto simp: quiet_def sv_def)
  have "\<forall>x \<in> set eps. 0 \<le> x"
    using eps assms(1) svpos by (intro epsilon_nonneg [of s2 sv eps]) (simp_all add: quiet_def s2_def)
  then have hpos: "\<forall>p \<in> set (h s2 eps). 0 \<le> p"
    using assms(1) dt by (intro h_nonneg) (auto simp: quiet_def s2_def)
  have later: "fst e \<le> fst e'" if "e' \<in> set es" for e'
    using assms(1) ev that by (auto simp: quiet_def)
  have "quiet s'"
    unfolding s' using assms(1) ev hpos dt later
    by (auto simp: quiet_def s2_def dt_def)
  moreover have "t s \<le> t s'"
    unfolding s' using dt by (simp add: s2_def)
  moreover have "shaped s \<longrightarrow> shaped s'"
    unfolding s' using ev length_epsilon [OF eps]
    by (auto simp: shaped_def s2_def length_h length_log_args)
  moreover have "N s' = N s"
    unfolding s' by (simp add: s2_def)
  ultimately show ?thesis by blast
qed

lemma quiet_tie_step:
  assumes "quiet s" and "branch_of s = Tie" and "tie_step s = Inr s'"
  shows "quiet s' \<and> t s \<le> t s' \<and> (shaped s \<longrightarrow> shaped s') \<and> N s' = N s"
proof -
  have ext: "external_events s = []" using assms(1) by (simp add: quiet_def)
  define min_dt where "min_dt = 1 - vmax (phases s)"
  define dt where "dt = max min_dt 0"
  define spk where "spk = map (\<lambda>p. if 1 \<le> p + dt then 1 else (0::real)) (phases s)"
  define ph1 where "ph1 = map (\<lambda>p. if 1 \<le> p + dt then 0 else p + dt) (phases s)"
  have ne: "events s \<noteq> []"
  proof
    assume "events s = []"
    then have "tie_step s = Inl UnboundLocalError"
      using ext by (simp add: tie_step_def Let_def quiet_next_arrival spike_vector_def and_then_def)
    with assms(3) show False by simp
  qed
  then obtain e es where ev: "events s = e # es" by (cases "events s") auto
  have tie: "min_dt = fst e - t s"
    using assms(2) ext ev
    by (simp add: branch_of_def Let_def quiet_next_arrival min_dt_def split: if_splits)
  have "t s \<le> fst e" using assms(1) ev by (simp add: quiet_def)
  with tie have dt_eq: "dt = fst e - t s" and dt: "0 \<le> dt" by (simp_all add: dt_def)
  define sv where "sv = snd e @ replicate (sum_list (N_ext s)) (0::real)"
  define s2 where "s2 = s\<lparr>phases := ph1, events := es @ [(tau s + t s + dt, spk)]\<rparr>"
  define ids where "ids = where_idx (\<lambda>p. p = vmax (phases s)) (phases s)"
  have unfold: "tie_step s =
      and_then (epsilon s2 sv)
        (\<lambda>eps. Inr (s2\<lparr>phases := fold (\<lambda>k p. if p ! k > 1 then p[k := 0] else p) ids (h s2 eps),
                       t := t s2 + dt\<rparr>))"
    unfolding dt_def min_dt_def sv_def s2_def ids_def spk_def ph1_def using ext ev
    by (simp add: tie_step_def Let_def quiet_next_arrival spike_vector_def and_then_def fire_eq
          split: sum.splits)
  with assms(3) obtain eps where eps: "epsilon s2 sv = Inr eps"
    and s': "s' = s2\<lparr>phases := fold (\<lambda>k p. if p ! k > 1 then p[k := 0] else p) ids (h s2 eps),
                       t := t s2 + dt\<rparr>"
    by (auto simp: and_then_def split: sum.splits)
  have svpos: "\<forall>x \<in> set sv. 0 \<le> x"
    using assms(1) ev by (auto simp: quiet_def sv_def)
  have "\<forall>x \<in> set eps. 0 \<le> x"
    using eps assms(1) svpos by (intro epsilon_nonneg [of s2 sv eps]) (simp_all add: quiet_def s2_def)
  then have "\<forall>p \<in> set (h s2 eps). 0 \<le> p"
    using assms(1) dt by (intro h_nonneg) (auto simp: quiet_def s2_def ph1_def)
  then have hpos: "\<forall>p \<in> set (fold (\<lambda>k p. if p ! k > 1 then p[k := 0] else p) ids (h s2 eps)). 0 \<le> p"
    by (rule reset_nonneg)
  have later: "fst e \<le> fst e'" if "e' \<in> set es" for e'
    using assms(1) ev that by (auto simp: quiet_def)
  have upper: "fst e' \<le> tau s + fst e" if "e' \<in> set es" for e'
  proof -
    have "fst e' \<le> tau s + t s" using assms(1) ev that by (auto simp: quiet_def)
    also have "\<dots> \<le> tau s + fst e" using \<open>t s \<le> fst e\<close> by simp
    finally show ?thesis .
  qed
  have "quiet s'"
    unfolding s' using assms(1) ev hpos later upper
    by (auto simp: quiet_def s2_def dt_eq spk_def sorted_append)
  moreover have "t s \<le> t s'"
    unfolding s' using dt by (simp add: s2_def)
  moreover have "shaped s \<longrightarrow> shaped s'"
    unfolding s' using ev length_epsilon [OF eps]
    by (auto simp: shaped_def s2_def ph1_def spk_def length_reset length_h length_log_args)
  moreover have "N s' = N s"
    unfolding s' by (simp add: s2_def)
  ultimately show ?thesis by blast
qed

lemma quiet_jump:
  assumes "quiet s" and "jump_to_next_event s = Inr s'"
  shows "quiet s' \<and> t s \<le> t s' \<and> (shaped s \<longrightarrow> shaped s') \<and> N s' = N s"
proof (cases "branch_of s")
  case SelfThreshold
  then show ?thesis
    using assms quiet_self_threshold [of s]
    by (auto simp: jump_to_next_event_def split: if_splits)
next
  case Tie
  then show ?thesis
    using assms quiet_tie_step [of s s']
    by (auto simp: jump_to_next_event_def split: if_splits)
next
  case Delivery
  then show ?thesis
    using assms quiet_delivery_step [of s s']
    by (auto simp: jump_to_next_event_def split: if_splits)
qed

text \<open>In such a network with at least one neuron and arrays of the right shapes a step
  never fails.\<close>

lemma quiet_jump_total:
  assumes "quiet s" and "shaped s" and "phases s \<noteq> []"
  shows "\<exists>s'. jump_to_next_event s = Inr s'"
proof (cases "branch_of s")
  case SelfThreshold
  then show ?thesis using assms(3) by (simp add: jump_to_next_event_def)
next
  case other: Tie
  have ext: "external_events s = []" using assms(1) by (simp add: quiet_def)
  have "0 \<le> vmax (phases s)"
    using vmax_in_set [OF assms(3)] assms(1) by (simp add: quiet_def)
  then have "events s \<noteq> []"
    using other ext by (auto simp: branch_of_def Let_def quiet_next_arrival split: if_splits)
  then obtain e es where ev: "events s = e # es" by (cases "events s") auto
  have len: "list_all (\<lambda>row. length row = length (snd e @ replicate (sum_list (N_ext s)) (0::real)))
      (weight_matrix s)"
    using assms(2) ev by (simp add: shaped_def list_all_iff)
  have "\<exists>s'. tie_step s = Inr s'"
    using ext ev len
    by (simp add: tie_step_def Let_def quiet_next_arrival spike_vector_def and_then_def fire_eq
          epsilon_def)
  then show ?thesis using other assms(3) by (simp add: jump_to_next_event_def)
next
  case other: Delivery
  have ext: "external_events s = []" using assms(1) by (simp add: quiet_def)
  have "0 \<le> vmax (phases s)"
    using vmax_in_set [OF assms(3)] assms(1) by (simp add: quiet_def)
  then have "events s \<noteq> []"
    using other ext by (auto simp: branch_of_def Let_def quiet_next_arrival split: if_splits)
  then obtain e es where ev: "events s = e # es" by (cases "events s") auto
  have len: "list_all (\<lambda>row. length row = length (snd e @ replicate (sum_list (N_ext s)) (0::real)))
      (weight_matrix s)"
    using assms(2) ev by (simp add: shaped_def list_all_iff)
  have "\<exists>s'. delivery_step s = Inr s'"
    using ext ev len
    by (simp add: delivery_step_def Let_def quiet_next_arrival spike_vector_def and_then_def
          epsilon_def)
  then show ?thesis using other assms(3) by (simp add: jump_to_next_event_def)
qed

lemma quiet_steps:
  assumes "quiet s" and "steps n s = Inr s'"
  shows "quiet s' \<and> t s \<le> t s' \<and> (shaped s \<longrightarrow> shaped s') \<and> N s' = N s"
  using assms
proof (induction n arbitrary: s)
  case 0
  then show ?case by simp
next
  case (Suc n)
  then obtain s1 where j: "jump_to_next_event s = Inr s1" and r: "steps n s1 = Inr s'"
    by (auto simp: and_then_def split: sum.splits)
  from quiet_jump [OF Suc.prems(1) j]
  have "quiet s1" "t s \<le> t s1" "shaped s \<longrightarrow> shaped s1" "N s1 = N s" by simp_all
  with Suc.IH [OF _ r] show ?case by auto
qed

lemma quiet_steps_total:
  assumes "quiet s" and "shaped s" and "0 < sum_list (N s)"
  shows "\<exists>s'. steps n s = Inr s'"
  using assms
proof (induction n arbitrary: s)
  case 0
  then show ?case by simp
next
  case (Suc n)
  from Suc.prems(2) have l: "length (phases s) = sum_list (N s)"
    unfolding shaped_def by blast
  have "phases s \<noteq> []"
  proof
    assume "phases s = []"
    then have "length (phases s) = 0" by simp
    with l Suc.prems(3) show False by linarith
  qed
  from quiet_jump_total [OF Suc.prems(1,2) this] obtain s1
    where j: "jump_to_next_event s = Inr s1" ..
  from quiet_jump [OF Suc.prems(1) j] Suc.prems(2)
  have q: "quiet s1" and sh: "shaped s1" and "N s1 = N s" by simp_all
  with Suc.IH [OF q sh] Suc.prems(3) j show ?case by (simp add: and_then_def)
qed

subsection \<open>Facts about the output tables\<close>








subsection \<open>Facts about the constructor\<close>

lemma foldE_preserves:
  assumes "\<And>x b b'. x \<in> set xs \<Longrightarrow> Q b \<Longrightarrow> f x b = Inr b' \<Longrightarrow> Q b'"
    and "Q b" and "foldE f xs b = Inr b'"
  shows "Q b'"
  using assms
proof (induction xs arbitrary: b)
  case Nil
  then show ?case by simp
next
  case (Cons x xs)
  from Cons.prems(3) obtain b1 where b1: "f x b = Inr b1" and r: "foldE f xs b1 = Inr b'"
    by (auto simp: and_then_def split: sum.splits)
  have "Q b1" using Cons.prems(1) [of x b b1] Cons.prems(2) b1 by simp
  moreover have "\<And>y c c'. y \<in> set xs \<Longrightarrow> Q c \<Longrightarrow> f y c = Inr c' \<Longrightarrow> Q c'"
    by (meson Cons.prems(1) list.set_intros(2))
  ultimately show ?case using r Cons.IH by blast
qed

lemma foldE_ok:
  assumes "\<And>x b. x \<in> set xs \<Longrightarrow> Q b \<Longrightarrow> (\<exists>b'. f x b = Inr b') = ok x"
    and "\<And>x b b'. x \<in> set xs \<Longrightarrow> Q b \<Longrightarrow> f x b = Inr b' \<Longrightarrow> Q b'"
    and "Q b"
  shows "(\<exists>b'. foldE f xs b = Inr b') = (\<forall>x \<in> set xs. ok x)"
  using assms
proof (induction xs arbitrary: b)
  case Nil
  then show ?case by simp
next
  case (Cons x xs)
  show ?case
  proof (cases "f x b")
    case (Inl e)
    with Cons.prems(1) [of x b] Cons.prems(3) have "\<not> ok x" by auto
    with Inl show ?thesis by (simp add: and_then_def)
  next
    case (Inr b1)
    with Cons.prems(1) [of x b] Cons.prems(3) have okx: "ok x" by auto
    have q1: "Q b1" using Cons.prems(2) [of x b b1] Cons.prems(3) Inr by simp
    have p1: "\<And>y c. y \<in> set xs \<Longrightarrow> Q c \<Longrightarrow> (\<exists>c'. f y c = Inr c') = ok y"
      by (rule Cons.prems(1)) simp_all
    have p2: "\<And>y c c'. y \<in> set xs \<Longrightarrow> Q c \<Longrightarrow> f y c = Inr c' \<Longrightarrow> Q c'"
      by (meson Cons.prems(2) list.set_intros(2))
    have "(\<exists>b'. foldE f xs b1 = Inr b') = (\<forall>x \<in> set xs. ok x)"
      using p1 p2 q1 by (rule Cons.IH)
    with Inr okx show ?thesis by (simp add: and_then_def)
  qed
qed

lemma all_below_length: "(\<forall>i<length xs. i < n) = (length xs \<le> n)"
proof (cases xs)
  case Nil
  then show ?thesis by simp
next
  case (Cons a list)
  then have "length xs - 1 < length xs" by simp
  then show ?thesis by (auto simp: not_le [symmetric] dest!: spec [of _ "length xs - 1"])
qed

lemma set_I_gamma_ok:
  "(\<exists>Ig. set_I_gamma Ns I0 gam = Inr Ig) = (length Ns \<le> length I0 \<and> length Ns \<le> length gam)"
proof -
  have "(\<exists>b'. set_I_gamma Ns I0 gam = Inr b') =
      (\<forall>i \<in> set [0..<length Ns]. i < length I0 \<and> i < length gam)"
    unfolding set_I_gamma_def
    by (rule foldE_ok [where Q = "\<lambda>b. True"]) (auto simp: Let_def split: prod.splits)
  also have "\<dots> = ((\<forall>i<length Ns. i < length I0) \<and> (\<forall>i<length Ns. i < length gam))"
    by auto
  finally show ?thesis by (simp add: all_below_length)
qed

lemma ISI_inner_step:
  assumes "same_sources s b"
  shows "(\<exists>b'. (if length (rates b) \<le> n then Inl IndexError
                else and_then (get_InterSpikeInterval b (rates b ! n))
                  (\<lambda>(a, s2). Inr (s2\<lparr>external_events := (external_events s2)[ix := a]\<rparr>))) = Inr b') =
         (n < length (rates s) \<and> rates s ! n \<noteq> 0)"
  using assms
  by (auto simp: same_sources_def get_InterSpikeInterval_def and_then_def)

lemma ISI_inner_same:
  assumes "same_sources s b"
    and "(if length (rates b) \<le> n then Inl IndexError
                else and_then (get_InterSpikeInterval b (rates b ! n))
                  (\<lambda>(a, s2). Inr (s2\<lparr>external_events := (external_events s2)[ix := a]\<rparr>))) = Inr b'"
  shows "same_sources s b'"
  using assms
  by (auto simp: same_sources_def get_InterSpikeInterval_def and_then_def split: if_splits)

lemma get_initial_ISI_same:
  assumes "get_initial_ISI s = Inr s1"
  shows "same_sources s s1"
  using _ _ assms unfolding get_initial_ISI_def
proof (rule foldE_preserves [where Q = "same_sources s"], goal_cases)
  case (1 n b b')
  from _ 1(2) 1(3) [unfolded Let_def] show ?case
    by (rule foldE_preserves [where Q = "same_sources s"]) (rule ISI_inner_same)
next
  case 2
  show ?case by (simp add: same_sources_def)
qed

lemma get_initial_ISI_ok:
  "(\<exists>s1. get_initial_ISI s = Inr s1) =
     (\<forall>n<length (N_ext s). 0 < N_ext s ! n \<longrightarrow> n < length (rates s) \<and> rates s ! n \<noteq> 0)"
proof -
  have "(\<exists>b'. get_initial_ISI s = Inr b') =
      (\<forall>n \<in> set [0..<length (N_ext s)].
          \<forall>i \<in> set [0..<N_ext s ! n]. n < length (rates s) \<and> rates s ! n \<noteq> 0)"
    unfolding get_initial_ISI_def
  proof (rule foldE_ok [where Q = "same_sources s"], goal_cases)
    case (1 n b)
    show ?case
      unfolding Let_def
      by (rule foldE_ok [where Q = "same_sources s"])
        (use 1(2) in \<open>auto intro: ISI_inner_same simp: ISI_inner_step\<close>)
  next
    case (2 n b b')
    from _ 2(2) 2(3) [unfolded Let_def] show ?case
      by (rule foldE_preserves [where Q = "same_sources s"]) (rule ISI_inner_same)
  next
    case 3
    show ?case by (simp add: same_sources_def)
  qed
  also have "\<dots> = (\<forall>n<length (N_ext s). 0 < N_ext s ! n \<longrightarrow> n < length (rates s) \<and> rates s ! n \<noteq> 0)"
    by auto
  finally show ?thesis .
qed

lemma connect_ok:
  "(\<exists>w. connect Ns Ms J K r = Inr w) =
     (\<forall>i<length Ns. \<forall>j<length Ms. i < length J \<and> j < length (J ! i))"
proof -
  have "(\<exists>w. connect Ns Ms J K r = Inr w) =
      (\<forall>i \<in> set [0..<length Ns]. \<forall>j \<in> set [0..<length Ms]. i < length J \<and> j < length (J ! i))"
    unfolding connect_def
  proof (rule foldE_ok [where Q = "\<lambda>b. True"], goal_cases)
    case (1 i b)
    show ?case
      unfolding Let_def
      by (rule foldE_ok [where Q = "\<lambda>b. True"]) (auto simp: not_le)
  qed simp_all
  then show ?thesis by auto
qed

lemma and_then_pair_ok:
  "(\<exists>a b. and_then m (\<lambda>w. Inr (w, s')) = Inr (a, b)) = (\<exists>w. m = Inr w)"
  by (cases m) (auto simp: and_then_def)

lemma length_slice_map: "length (slice_map lo hi f xs) = length xs"
  by (simp add: slice_map_def)

lemma nth_slice_map:
  "a < length xs \<Longrightarrow> slice_map lo hi f xs ! a = (if lo \<le> a \<and> a < hi then f (xs ! a) else xs ! a)"
  by (simp add: slice_map_def nth_enumerate_eq)

lemma set_slice_map:
  "set (slice_map lo hi f xs) \<subseteq> set xs \<union> f ` set xs"
  by (auto simp: slice_map_def in_set_enumerate_eq)

lemma foldE_upt_inv:
  assumes "\<And>i b b'. k \<le> i \<Longrightarrow> i < n \<Longrightarrow> Q i b \<Longrightarrow> f i b = Inr b' \<Longrightarrow> Q (Suc i) b'"
    and "Q k b" and "foldE f [k..<n] b = Inr b'" and "k \<le> n"
  shows "Q n b'"
  using assms
proof (induction "n - k" arbitrary: k b)
  case 0
  then show ?case by simp
next
  case (Suc d)
  then have kn: "k < n" by simp
  then have u: "[k..<n] = k # [Suc k..<n]" by (simp add: upt_conv_Cons)
  from Suc.prems(3) obtain b1 where b1: "f k b = Inr b1" and r: "foldE f [Suc k..<n] b1 = Inr b'"
    unfolding u by (auto simp: and_then_def split: sum.splits)
  have q1: "Q (Suc k) b1" using Suc.prems(1) [of k b b1] kn Suc.prems(2) b1 by simp
  have d: "d = n - Suc k" using Suc.hyps(2) by simp
  have step: "\<And>i b b'. Suc k \<le> i \<Longrightarrow> i < n \<Longrightarrow> Q i b \<Longrightarrow> f i b = Inr b' \<Longrightarrow> Q (Suc i) b'"
    using Suc.prems(1) by simp
  from Suc.hyps(1) [OF d step q1 r] kn show ?case by simp
qed

lemma astype_int_draw:
  assumes "0 \<le> x" "x < 1" "0 \<le> p"
  shows "0 \<le> 1 - real_of_int (astype_int (x + (1 - p)))"
proof -
  have "x + (1 - p) < 2" using assms by simp
  then have "astype_int (x + (1 - p)) \<le> 1"
    by (auto simp: astype_int_def floor_le_iff ceiling_le_iff)
  then show ?thesis by simp
qed

lemma connect_nonneg:
  assumes "connect Ns Ms J K r0 = Inr w"
    and "\<forall>row \<in> set r0. \<forall>x \<in> set row. 0 \<le> x \<and> x < 1"
    and "\<forall>i<length Ns. \<forall>j<length Ms. i < length J \<longrightarrow> j < length (J ! i) \<longrightarrow> 0 \<le> J ! i ! j"
    and "0 \<le> K"
  shows "\<forall>row \<in> set w. \<forall>x \<in> set row. 0 \<le> x"
proof -
  define lo where "lo i = sum_list (take i Ns)" for i
  have lo_Suc: "lo (Suc i) = lo i + Ns ! i" if "i < length Ns" for i
    using that by (simp add: lo_def take_Suc_conv_app_nth)
  have "half_done (lo (length Ns)) w"
    using _ _ assms(1) [unfolded connect_def]
  proof (rule foldE_upt_inv [where Q = "\<lambda>i. half_done (lo i)"], goal_cases)
    case (1 i r r')
    define r1 where "r1 = slice_map (lo i) (lo i + Ns ! i)
        (map (\<lambda>x. 1 - real_of_int (astype_int (x + (1 - K / real (Ns ! i)))))) r"
    have p: "0 \<le> K / real (Ns ! i)" using assms(4) by simp
    have h1: "half_done (lo i + Ns ! i) r1"
      unfolding half_done_def r1_def
    proof (intro allI impI ballI)
      fix a x
      assume a: "a < length (slice_map (lo i) (lo i + Ns ! i)
           (map (\<lambda>x. 1 - real_of_int (astype_int (x + (1 - K / real (Ns ! i)))))) r)"
        and x: "x \<in> set (slice_map (lo i) (lo i + Ns ! i)
           (map (\<lambda>x. 1 - real_of_int (astype_int (x + (1 - K / real (Ns ! i)))))) r ! a)"
      from a have al: "a < length r" by (simp add: length_slice_map)
      show "0 \<le> x \<and> (lo i + Ns ! i \<le> a \<longrightarrow> x < 1)"
      proof (cases "lo i \<le> a \<and> a < lo i + Ns ! i")
        case True
        with x al obtain y where y: "y \<in> set (r ! a)"
          and xy: "x = 1 - real_of_int (astype_int (y + (1 - K / real (Ns ! i))))"
          by (auto simp: nth_slice_map)
        from 1(3) al y True have "0 \<le> y \<and> y < 1" by (auto simp: half_done_def)
        then show ?thesis using xy astype_int_draw [OF _ _ p, of y] True by simp
      next
        case False
        with x al have "x \<in> set (r ! a)" by (simp add: nth_slice_map)
        with 1(3) al False show ?thesis by (auto simp: half_done_def)
      qed
    qed
    have inner: "foldE (\<lambda>j r.
               let index_j = sum_list (take j Ms)
               in if length J \<le> i \<or> length (J ! i) \<le> j then Inl IndexError
                  else Inr (slice_map (lo i) (lo i + Ns ! i)
                              (slice_map index_j (index_j + Ms ! j) (\<lambda>x. x * J ! i ! j)) r))
             [0..<length Ms] r1 = Inr r'"
      using 1(4) unfolding Let_def r1_def lo_def .
    have "half_done (lo i + Ns ! i) r'"
      using _ h1 inner
    proof (rule foldE_preserves [where Q = "half_done (lo i + Ns ! i)"], goal_cases)
      case (1 j b b')
      then have ok: "i < length J" "j < length (J ! i)"
        and b': "b' = slice_map (lo i) (lo i + Ns ! i)
              (slice_map (sum_list (take j Ms)) (sum_list (take j Ms) + Ms ! j) (\<lambda>x. x * J ! i ! j)) b"
        by (auto simp: Let_def not_le split: if_splits)
      from ok assms(3) \<open>i < length Ns\<close> 1(1) have Jpos: "0 \<le> J ! i ! j" by simp
      show ?case
        unfolding half_done_def b'
      proof (intro allI impI ballI)
        fix a x
        assume a: "a < length (slice_map (lo i) (lo i + Ns ! i)
              (slice_map (sum_list (take j Ms)) (sum_list (take j Ms) + Ms ! j) (\<lambda>x. x * J ! i ! j)) b)"
          and x: "x \<in> set (slice_map (lo i) (lo i + Ns ! i)
              (slice_map (sum_list (take j Ms)) (sum_list (take j Ms) + Ms ! j) (\<lambda>x. x * J ! i ! j)) b ! a)"
        from a have al: "a < length b" by (simp add: length_slice_map)
        show "0 \<le> x \<and> (lo i + Ns ! i \<le> a \<longrightarrow> x < 1)"
        proof (cases "lo i \<le> a \<and> a < lo i + Ns ! i")
          case True
          with x al have "x \<in> set (b ! a) \<union> (\<lambda>x. x * J ! i ! j) ` set (b ! a)"
            using set_slice_map [of "sum_list (take j Ms)" "sum_list (take j Ms) + Ms ! j"
                "\<lambda>x. x * J ! i ! j" "b ! a"]
            by (auto simp: nth_slice_map)
          moreover have "\<forall>y \<in> set (b ! a). 0 \<le> y"
            using 1(2) al by (auto simp: half_done_def)
          ultimately show ?thesis using Jpos True by auto
        next
          case False
          with x al have "x \<in> set (b ! a)" by (simp add: nth_slice_map)
          with 1(2) al show ?thesis by (auto simp: half_done_def)
        qed
      qed
    qed
    then show ?case using lo_Suc [OF 1(2)] by simp
  next
    case 2
    show ?case
      using assms(2) by (auto simp: half_done_def)
  qed simp
  then have "\<forall>a<length w. \<forall>x \<in> set (w ! a). 0 \<le> x"
    by (simp add: half_done_def)
  then show ?thesis
    by (metis in_set_conv_nth)
qed

lemma set_I_gamma_pos:
  assumes "set_I_gamma Ns I0 gam = Inr Ig"
    and "\<forall>x \<in> set I0. 0 < x" and "\<forall>x \<in> set gam. 0 < x"
  shows "(\<forall>x \<in> set (fst Ig). 0 < x) \<and> (\<forall>x \<in> set (snd Ig). 0 < x)"
  using _ _ assms(1) [unfolded set_I_gamma_def]
proof (rule foldE_preserves
    [where Q = "\<lambda>Ig. (\<forall>x \<in> set (fst Ig). 0 < x) \<and> (\<forall>x \<in> set (snd Ig). (0::real) < x)"],
    goal_cases)
  case (1 i b b')
  obtain Ir Gr where b: "b = (Ir, Gr)" by (cases b)
  from 1(3) b have i: "i < length I0" "i < length gam"
    and b': "b' = (slice_map (sum_list (take i Ns)) (sum_list (take i Ns) + Ns ! i) (\<lambda>x. x * I0 ! i) Ir,
                  slice_map (sum_list (take i Ns)) (sum_list (take i Ns) + Ns ! i) (\<lambda>x. x * gam ! i) Gr)"
    by (auto simp: Let_def not_le split: if_splits)
  from i assms(2,3) have pos: "0 < I0 ! i" "0 < gam ! i" by simp_all
  show ?case
    unfolding b'
    using 1(2) b pos
      set_slice_map [of "sum_list (take i Ns)" "sum_list (take i Ns) + Ns ! i" "\<lambda>x. x * I0 ! i" Ir]
      set_slice_map [of "sum_list (take i Ns)" "sum_list (take i Ns) + Ns ! i" "\<lambda>x. x * gam ! i" Gr]
    by auto
qed simp

lemma set_I_gamma_length:
  assumes "set_I_gamma Ns I0 gam = Inr Ig"
  shows "length (fst Ig) = sum_list Ns \<and> length (snd Ig) = sum_list Ns"
  using _ _ assms [unfolded set_I_gamma_def]
  by (rule foldE_preserves
      [where Q = "\<lambda>Ig. length (fst Ig) = sum_list Ns \<and> length (snd Ig) = sum_list Ns"])
    (auto simp: Let_def length_slice_map split: if_splits)

lemma connect_shape:
  assumes "connect Ns Ms J K r0 = Inr w"
    and "length r0 = n" and "\<forall>row \<in> set r0. length row = m"
  shows "length w = n \<and> (\<forall>row \<in> set w. length row = m)"
  using _ _ assms(1) [unfolded connect_def]
proof (rule foldE_preserves
    [where Q = "\<lambda>r. length r = n \<and> (\<forall>row \<in> set r. length row = m)"], goal_cases)
  case (1 i r r')
  define r1 where "r1 = slice_map (sum_list (take i Ns)) (sum_list (take i Ns) + Ns ! i)
        (map (\<lambda>x. 1 - real_of_int (astype_int (x + (1 - K / real (Ns ! i)))))) r"
  have q1: "length r1 = n \<and> (\<forall>row \<in> set r1. length row = m)"
    unfolding r1_def
    using 1(2) set_slice_map [of "sum_list (take i Ns)" "sum_list (take i Ns) + Ns ! i"
        "map (\<lambda>x. 1 - real_of_int (astype_int (x + (1 - K / real (Ns ! i)))))" r]
    by (auto simp: length_slice_map)
  from _ q1 1(3) [unfolded Let_def, folded r1_def] show ?case
  proof (rule foldE_preserves
      [where Q = "\<lambda>r. length r = n \<and> (\<forall>row \<in> set r. length row = m)"], goal_cases)
    case (1 j b b')
    then have b': "b' = slice_map (sum_list (take i Ns)) (sum_list (take i Ns) + Ns ! i)
          (slice_map (sum_list (take j Ms)) (sum_list (take j Ms) + Ms ! j) (\<lambda>x. x * J ! i ! j)) b"
      by (auto split: if_splits)
    show ?case
      unfolding b'
      using 1(2) set_slice_map [of "sum_list (take i Ns)" "sum_list (take i Ns) + Ns ! i"
          "slice_map (sum_list (take j Ms)) (sum_list (take j Ms) + Ms ! j) (\<lambda>x. x * J ! i ! j)" b]
      by (auto simp: length_slice_map)
  qed
qed (use assms(2,3) in simp)

subsection \<open>Shapes and spike indicators\<close>











lemma shaped_epsilon:
  assumes "shaped s" and "length sv = sum_list (N s) + sum_list (N_ext s)"
  shows "\<exists>eps. epsilon s sv = Inr eps \<and> length eps = sum_list (N s)"
  using assms by (simp add: epsilon_def shaped_def list_all_iff)







text \<open>The constructor returns a network of these shapes with an empty queue.\<close>

lemma get_initial_ISI_length:
  assumes "get_initial_ISI s = Inr s1"
  shows "length (external_events s1) = length (external_events s)"
  using _ _ assms unfolding get_initial_ISI_def
proof (rule foldE_preserves
    [where Q = "\<lambda>b. length (external_events b) = length (external_events s)"], goal_cases)
  case (1 n b b')
  from _ 1(2) 1(3) [unfolded Let_def] show ?case
    by (rule foldE_preserves
        [where Q = "\<lambda>b. length (external_events b) = length (external_events s)"])
      (auto simp: get_InterSpikeInterval_def and_then_def split: if_splits)
qed simp

lemma length_map2_append:
  assumes "length w = n" and "length we = n"
    and "\<forall>row \<in> set w. length row = a" and "\<forall>row \<in> set we. length row = b"
  shows "length (map2 (@) w we) = n \<and> (\<forall>row \<in> set (map2 (@) w we). length row = a + b)"
proof (intro conjI ballI)
  show "length (map2 (@) w we) = n" using assms(1,2) by simp
next
  fix row assume "row \<in> set (map2 (@) w we)"
  then obtain x y where "(x, y) \<in> set (zip w we)" "row = x @ y" by auto
  then have "x \<in> set w" "y \<in> set we" "row = x @ y"
    by (auto dest: set_zip_leftD set_zip_rightD)
  then show "length row = a + b" using assms(3,4) by simp
qed

lemma System_init_shaped:
  assumes init: "System_init Ns J_int I0 gam K tau0 Ns_ext J_ext rates0 rnd = Inr s"
  shows "shaped s \<and> binary_events s \<and> N s = Ns \<and> N_ext s = Ns_ext"
proof -
  have bindE: "\<exists>x. m = Inr x \<and> f x = Inr y" if "and_then m f = Inr y"
    for m :: "py_error + 'x" and f :: "'x \<Rightarrow> py_error + 'y" and y
    using that by (cases m) (simp_all add: and_then_def)
  define s0 where "s0 Ig =
     \<lparr>N = Ns, N_ext = Ns_ext, tau = tau0, I_gamma = Ig, t = 0, events = [],
      rates = rates0, external_events = replicate (sum_list Ns_ext) 1, phases = [],
      weight_matrix = [], rand = rnd, drawn = 0\<rparr>" for Ig
  have init': "and_then (set_I_gamma Ns I0 gam)
       (\<lambda>Ig. and_then (get_initial_ISI (s0 Ig))
          (\<lambda>sa. and_then (create_weight_matrix (create_phases sa) J_int K)
             (\<lambda>r. and_then (create_ext_weight_matrix (snd r) J_ext K)
                (\<lambda>re. Inr ((snd re)\<lparr>weight_matrix := map2 (@) (fst r) (fst re)\<rparr>))))) = Inr s"
    using init
    by (simp add: System_init_def s0_def [symmetric] case_prod_unfold)
  from bindE [OF init'] obtain Ig where a: "set_I_gamma Ns I0 gam = Inr Ig"
    and s1: "and_then (get_initial_ISI (s0 Ig))
          (\<lambda>sa. and_then (create_weight_matrix (create_phases sa) J_int K)
             (\<lambda>r. and_then (create_ext_weight_matrix (snd r) J_ext K)
                (\<lambda>re. Inr ((snd re)\<lparr>weight_matrix := map2 (@) (fst r) (fst re)\<rparr>)))) = Inr s"
    by blast
  from bindE [OF s1] obtain sa where b: "get_initial_ISI (s0 Ig) = Inr sa"
    and s2: "and_then (create_weight_matrix (create_phases sa) J_int K)
             (\<lambda>r. and_then (create_ext_weight_matrix (snd r) J_ext K)
                (\<lambda>re. Inr ((snd re)\<lparr>weight_matrix := map2 (@) (fst r) (fst re)\<rparr>))) = Inr s"
    by blast
  from bindE [OF s2] obtain r where c: "create_weight_matrix (create_phases sa) J_int K = Inr r"
    and s3: "and_then (create_ext_weight_matrix (snd r) J_ext K)
                (\<lambda>re. Inr ((snd re)\<lparr>weight_matrix := map2 (@) (fst r) (fst re)\<rparr>)) = Inr s"
    by blast
  from bindE [OF s3] obtain re where d: "create_ext_weight_matrix (snd r) J_ext K = Inr re"
    and s: "s = (snd re)\<lparr>weight_matrix := map2 (@) (fst r) (fst re)\<rparr>"
    by auto
  have sa: "N sa = Ns" "N_ext sa = Ns_ext" "I_gamma sa = Ig" "events sa = []"
    "length (external_events sa) = sum_list Ns_ext"
    using get_initial_ISI_same [OF b] get_initial_ISI_length [OF b]
    by (simp_all add: same_sources_def s0_def)
  define s1 where "s1 = create_phases sa"
  from c obtain w where w: "connect (N s1) (N s1) J_int K
        (fst (rand_matrix s1 (sum_list (N s1)) (sum_list (N s1)))) = Inr w"
    and r: "r = (w, snd (rand_matrix s1 (sum_list (N s1)) (sum_list (N s1))))"
    by (auto simp: create_weight_matrix_def s1_def [symmetric] Let_def and_then_def
          case_prod_unfold split: sum.splits)
  define s2 where "s2 = snd r"
  have s2_eq: "s2 = s1\<lparr>drawn := drawn s1 + sum_list (N s1) * sum_list (N s1)\<rparr>"
    by (simp add: s2_def r rand_matrix_def)
  from d obtain we where we: "connect (N s2) (N_ext s2) J_ext K
        (fst (rand_matrix s2 (sum_list (N s2)) (sum_list (N_ext s2)))) = Inr we"
    and re: "re = (we, snd (rand_matrix s2 (sum_list (N s2)) (sum_list (N_ext s2))))"
    by (auto simp: create_ext_weight_matrix_def s2_def [symmetric] Let_def and_then_def
          case_prod_unfold split: sum.splits)
  have s_eq: "s = s1\<lparr>drawn := drawn (snd re), weight_matrix := map2 (@) w we\<rparr>"
    by (simp add: s re r rand_matrix_def s2_eq)
  have dims: "length (fst (rand_matrix x m n)) = m \<and>
      (\<forall>row \<in> set (fst (rand_matrix x m n)). length row = n)" for x m n
    by (auto simp: rand_matrix_def)
  have Ns1: "N s1 = Ns" "N s2 = Ns" "N_ext s2 = Ns_ext"
    by (simp_all add: s2_eq s1_def create_phases_def sa)
  have wdim: "length w = sum_list Ns \<and> (\<forall>row \<in> set w. length row = sum_list Ns)"
    using w dims [of s1 "sum_list Ns" "sum_list Ns"] unfolding Ns1
    by (intro connect_shape) auto
  have wedim: "length we = sum_list Ns \<and> (\<forall>row \<in> set we. length row = sum_list Ns_ext)"
    using we dims [of s2 "sum_list Ns" "sum_list Ns_ext"] unfolding Ns1
    by (intro connect_shape) auto
  have rows: "length (map2 (@) w we) = sum_list Ns \<and>
      (\<forall>row \<in> set (map2 (@) w we). length row = sum_list Ns + sum_list Ns_ext)"
    using wdim wedim by (intro length_map2_append) simp_all
  have Iglen: "length (fst Ig) = sum_list Ns \<and> length (snd Ig) = sum_list Ns"
    using a by (rule set_I_gamma_length)
  have "shaped s"
    unfolding s_eq using Iglen rows sa
    by (simp add: shaped_def s1_def create_phases_def)
  moreover have "binary_events s"
    unfolding s_eq by (simp add: binary_events_def s1_def create_phases_def sa)
  moreover have "N s = Ns" "N_ext s = Ns_ext"
    unfolding s_eq by (simp_all add: s1_def create_phases_def sa)
  ultimately show ?thesis by blast
qed

lemma System_init_quiet:
  assumes init: "System_init Ns J_int I0 gam K tau0 [] J_ext rates0 rnd = Inr s"
    and tau: "0 \<le> tau0"
    and Ipos: "\<forall>x \<in> set I0. 0 < x" and gpos: "\<forall>x \<in> set gam. 0 < x"
    and Jpos: "\<forall>row \<in> set J_int. \<forall>x \<in> set row. 0 \<le> x"
    and K: "0 \<le> K"
    and rnd: "\<forall>k. 0 \<le> rnd k \<and> rnd k < 1"
  shows "quiet s \<and> shaped s \<and> N s = Ns"
proof -
  have bindE: "\<exists>x. m = Inr x \<and> f x = Inr y" if "and_then m f = Inr y"
    for m :: "py_error + 'x" and f :: "'x \<Rightarrow> py_error + 'y" and y
    using that by (cases m) (simp_all add: and_then_def)
  define s0 where "s0 Ig =
     \<lparr>N = Ns, N_ext = [], tau = tau0, I_gamma = Ig, t = 0, events = [],
      rates = rates0, external_events = [], phases = [],
      weight_matrix = [], rand = rnd, drawn = 0\<rparr>" for Ig
  have isi: "get_initial_ISI (s0 Ig) = Inr (s0 Ig)" for Ig
    by (simp add: get_initial_ISI_def s0_def)
  have init': "and_then (set_I_gamma Ns I0 gam)
       (\<lambda>Ig. and_then (create_weight_matrix (create_phases (s0 Ig)) J_int K)
             (\<lambda>r. and_then (create_ext_weight_matrix (snd r) J_ext K)
                (\<lambda>re. Inr ((snd re)\<lparr>weight_matrix := map2 (@) (fst r) (fst re)\<rparr>)))) = Inr s"
    using init isi
    by (simp add: System_init_def s0_def [symmetric] and_then_def case_prod_unfold
          split: sum.splits)
  from bindE [OF init'] obtain Ig where a: "set_I_gamma Ns I0 gam = Inr Ig"
    and s2: "and_then (create_weight_matrix (create_phases (s0 Ig)) J_int K)
             (\<lambda>r. and_then (create_ext_weight_matrix (snd r) J_ext K)
                (\<lambda>re. Inr ((snd re)\<lparr>weight_matrix := map2 (@) (fst r) (fst re)\<rparr>))) = Inr s"
    by blast
  from bindE [OF s2] obtain r where c: "create_weight_matrix (create_phases (s0 Ig)) J_int K = Inr r"
    and s3: "and_then (create_ext_weight_matrix (snd r) J_ext K)
                (\<lambda>re. Inr ((snd re)\<lparr>weight_matrix := map2 (@) (fst r) (fst re)\<rparr>)) = Inr s"
    by blast
  from bindE [OF s3] obtain re where d: "create_ext_weight_matrix (snd r) J_ext K = Inr re"
    and s: "s = (snd re)\<lparr>weight_matrix := map2 (@) (fst r) (fst re)\<rparr>"
    by auto
  define s1 where "s1 = create_phases (s0 Ig)"
  have draws: "\<forall>row \<in> set (fst (rand_matrix x m n)). \<forall>v \<in> set row. 0 \<le> v \<and> v < 1"
    if "rand x = rnd" for x m n
    using rnd that by (auto simp: rand_matrix_def)
  from c obtain w where w: "connect (N s1) (N s1) J_int K
        (fst (rand_matrix s1 (sum_list (N s1)) (sum_list (N s1)))) = Inr w"
    and r: "r = (w, snd (rand_matrix s1 (sum_list (N s1)) (sum_list (N s1))))"
    by (auto simp: create_weight_matrix_def s1_def [symmetric] Let_def and_then_def
          case_prod_unfold split: sum.splits)
  have rs1: "rand s1 = rnd" by (simp add: s1_def create_phases_def s0_def)
  have "\<forall>i<length (N s1). \<forall>j<length (N s1).
      i < length J_int \<longrightarrow> j < length (J_int ! i) \<longrightarrow> 0 \<le> J_int ! i ! j"
    using Jpos by (metis nth_mem)
  with w draws [OF rs1] have wpos: "\<forall>row \<in> set w. \<forall>x \<in> set row. 0 \<le> x"
    using K by (rule connect_nonneg)
  define s2 where "s2 = snd r"
  have s2_eq: "s2 = s1\<lparr>drawn := drawn s1 + sum_list (N s1) * sum_list (N s1)\<rparr>"
    by (simp add: s2_def r rand_matrix_def)
  from d obtain we where we: "connect (N s2) (N_ext s2) J_ext K
        (fst (rand_matrix s2 (sum_list (N s2)) (sum_list (N_ext s2)))) = Inr we"
    and re: "re = (we, snd (rand_matrix s2 (sum_list (N s2)) (sum_list (N_ext s2))))"
    by (auto simp: create_ext_weight_matrix_def s2_def [symmetric] Let_def and_then_def
          case_prod_unfold split: sum.splits)
  have rs2: "rand s2 = rnd" by (simp add: s2_eq rs1)
  have "N_ext s2 = []" by (simp add: s2_eq s1_def create_phases_def s0_def)
  then have "\<forall>i<length (N s2). \<forall>j<length (N_ext s2).
      i < length J_ext \<longrightarrow> j < length (J_ext ! i) \<longrightarrow> 0 \<le> J_ext ! i ! j"
    by simp
  with we draws [OF rs2] have wepos: "\<forall>row \<in> set we. \<forall>x \<in> set row. 0 \<le> x"
    using K by (rule connect_nonneg)
  have s_eq: "s = s1\<lparr>drawn := drawn (snd re), weight_matrix := map2 (@) w we\<rparr>"
    by (simp add: s re r rand_matrix_def s2_eq)
  have rows: "\<forall>row \<in> set (map2 (@) w we). \<forall>x \<in> set row. 0 \<le> x"
  proof (intro ballI)
    fix row x assume "row \<in> set (map2 (@) w we)" "x \<in> set row"
    then obtain a b where "(a, b) \<in> set (zip w we)" "x \<in> set (a @ b)" by auto
    then have "a \<in> set w" "b \<in> set we" "x \<in> set a \<or> x \<in> set b"
      by (auto dest: set_zip_leftD set_zip_rightD)
    then show "0 \<le> x" using wpos wepos by blast
  qed
  have Ig: "(\<forall>x \<in> set (fst Ig). 0 < x) \<and> (\<forall>x \<in> set (snd Ig). 0 < x)"
    using a Ipos gpos by (rule set_I_gamma_pos)
  have "quiet s"
    unfolding s_eq using tau Ig rows rnd
    by (simp add: quiet_def s1_def create_phases_def s0_def)
  moreover have "shaped s" "N s = Ns"
    using System_init_shaped [OF init] by simp_all
  ultimately show ?thesis by blast
qed

subsection \<open>Running the model on the concrete networks\<close>

lemmas step_defs =
  jump_to_next_event_def branch_of_def next_arrival_def self_threshold_def fire_def
  where_idx_def put_at_def and_then_def delivery_step_def spike_vector_def epsilon_def
  h_def log_args_def tie_step_def Let_def external_spikes_def rate_index_def
  get_InterSpikeInterval_def

lemmas init_defs =
  System_init_def set_I_gamma_def get_initial_ISI_def create_phases_def
  create_weight_matrix_def create_ext_weight_matrix_def rand_matrix_def connect_def
  slice_map_def astype_int_def and_then_def Let_def get_InterSpikeInterval_def

lemmas net_defs =
  unit_neuron_def undelayed_neuron_def inhibited_neuron_def excited_neuron_def
  late_source_def pair_net_def half_draws_def late_draws_def pair_draws_def


lemma exp_plus_one_pos: "\<not> exp (x::real) + 1 \<le> 0"
  by (simp add: add_pos_pos not_le)

lemma ln_exp_plus_one_pos: "0 < ln (exp (x::real) + 1)"
  by (simp add: add_pos_pos)

lemma unit_neuron_init:
  "System_init [1] [[1]] [1] [1] 1 (1 / 20) [] [] [] half_draws = Inr unit_neuron"
  by (simp add: init_defs net_defs)


lemma inhibited_neuron_init:
  "System_init [1] [[- 1]] [1] [1] 1 (1 / 20) [] [] [] half_draws = Inr inhibited_neuron"
  by (simp add: init_defs net_defs)

lemma excited_neuron_init:
  "System_init [1] [[5 / 2]] [1] [1 / 5] 1 (1 / 20) [] [] [] half_draws = Inr excited_neuron"
  by (simp add: init_defs net_defs)

lemma late_source_init:
  "System_init [1] [[0]] [1] [1] 1 (1 / 20) [1] [[- 1]] [1] late_draws = Inr late_source"
  by (simp add: init_defs net_defs)


text \<open>The first steps of the concrete networks.\<close>

lemma inhibited_neuron_steps:
  "steps 2 inhibited_neuron = Inr (inhibited_neuron\<lparr>t := 11 / 20, phases := [- ln (exp (- (1 / 20)) + 1)]\<rparr>)"
  by (simp add: numeral_2_eq_2 net_defs step_defs exp_plus_one_pos)

lemma excited_log_arg: "0 < exp (- (1 / 100)) - (1 / 2 :: real)"
  using exp_ge_add_one_self [of "- (1 / 100) :: real"] by simp

lemma excited_neuron_steps:
  "steps 2 excited_neuron = Inr (excited_neuron\<lparr>t := 11 / 20, phases := [- (5 * ln (exp (- (1 / 100)) - 1 / 2))]\<rparr>)"
  using excited_log_arg
  by (simp add: numeral_2_eq_2 net_defs step_defs not_le)

lemma excited_phase: "11 / 10 < - (5 * ln (exp (- (1 / 100)) - (1 / 2 :: real)))"
proof -
  have "ln (exp (- (1 / 100)) - (1 / 2 :: real)) \<le> exp (- (1 / 100)) - 1 / 2 - 1"
    using excited_log_arg by (rule ln_le_minus_one)
  also have "\<dots> \<le> - (1 / 2)"
  proof -
    have "exp (- (1 / 100)) \<le> (1::real)" by simp
    then show ?thesis by linarith
  qed
  finally show ?thesis by simp
qed


lemma late_source_step1:
  "jump_to_next_event late_source =
     Inr (late_source\<lparr>t := 3 / 10, external_events := [1 / 10],
            phases := [- ln (exp (- (4 / 5)) + 1)], drawn := 5\<rparr>)"
  by (simp add: net_defs step_defs exp_plus_one_pos)

lemma late_source_step2:
  "jump_to_next_event (late_source\<lparr>t := 3 / 10, external_events := [1 / 10],
            phases := [- ln (exp (- (4 / 5)) + 1)], drawn := 5\<rparr>) =
     Inr (late_source\<lparr>t := 1 / 10, external_events := [3 / 10 - ln (1 / 2)],
            phases := [- ln (exp (ln (exp (- (4 / 5)) + 1) + 1 / 5) + 1)], drawn := 6\<rparr>)"
  using ln_exp_plus_one_pos [of "- (4 / 5)"]
  by (simp add: net_defs step_defs exp_plus_one_pos)



subsection \<open>C1: bounds on the phases\<close>

text \<open>C1 as stated fails in both directions. With an inhibitory self-connection the phase
  of the neuron is negative after its own spike has been delivered (two steps after
  construction); with a strong excitatory connection that does not saturate, the phase
  after the delivery lies above the sentinel \<open>1.1\<close>.\<close>

theorem phase_bounds_counterexample:
  "map_sum id phases (and_then (System_init [1] [[- 1]] [1] [1] 1 (1 / 20) [] [] [] half_draws) (steps 2))
      = Inr [- ln (exp (- (1 / 20)) + 1)]
   \<and> - ln (exp (- (1 / 20)) + 1) < (0::real)
   \<and> map_sum id phases (and_then (System_init [1] [[5 / 2]] [1] [1 / 5] 1 (1 / 20) [] [] [] half_draws) (steps 2))
      = Inr [- (5 * ln (exp (- (1 / 100)) - 1 / 2))]
   \<and> 11 / 10 < - (5 * ln (exp (- (1 / 100)) - (1 / 2 :: real)))"
  unfolding inhibited_neuron_init excited_neuron_init
  using excited_phase ln_exp_plus_one_pos [of "- (1 / 20)"]
  by (simp add: inhibited_neuron_steps excited_neuron_steps and_then_def)

text \<open>C1, amended. For every construction with at least one neuron and without external
  populations, with positive \<open>I\<close> and \<open>gamma\<close>, non-negative connection strengths,
  \<open>K \<ge> 0\<close>, \<open>tau \<ge> 0\<close> and uniform draws in \<open>[0, 1)\<close>, and for every number \<open>n\<close> of
  simulation steps: the \<open>n\<close> steps run without error and no phase is negative after them.
  No upper bound is claimed.\<close>

theorem phases_stay_nonnegative:
  assumes "System_init Ns J_int I0 gam K tau0 [] J_ext rates0 rnd = Inr s"
    and "0 < sum_list Ns"
    and "0 \<le> tau0" and "0 \<le> K"
    and "\<forall>x \<in> set I0. 0 < x" and "\<forall>x \<in> set gam. 0 < x"
    and "\<forall>row \<in> set J_int. \<forall>x \<in> set row. 0 \<le> x"
    and "\<forall>k. 0 \<le> rnd k \<and> rnd k < 1"
  shows "\<exists>s'. steps n s = Inr s' \<and> (\<forall>p \<in> set (phases s'). 0 \<le> p)"
proof -
  have "quiet s \<and> shaped s \<and> N s = Ns"
    using assms(1,3,5,6,7,4,8) by (rule System_init_quiet)
  then have q: "quiet s" and sh: "shaped s" and "0 < sum_list (N s)"
    using assms(2) by simp_all
  then obtain s' where s': "steps n s = Inr s'"
    using quiet_steps_total by blast
  with q have "quiet s'"
    using quiet_steps by blast
  with s' show ?thesis by (auto simp: quiet_def)
qed

theorem phases_stay_nonnegative_witness:
  "System_init [1] [[1]] [1] [1] 1 (1 / 20) [] [] [] half_draws = Inr unit_neuron
     \<and> steps 2 unit_neuron = Inr (unit_neuron\<lparr>t := 11 / 20, phases := [11 / 10]\<rparr>)
     \<and> list_all ((\<le>) 0) (phases (unit_neuron\<lparr>t := 11 / 20, phases := [11 / 10]\<rparr>))"
proof -
  have st: "steps 2 unit_neuron = Inr (unit_neuron\<lparr>t := 11 / 20, phases := [11 / 10]\<rparr>)"
    by (simp add: numeral_2_eq_2 net_defs step_defs)
  have "\<exists>s'. steps 2 unit_neuron = Inr s' \<and> (\<forall>p \<in> set (phases s'). 0 \<le> p)"
    using unit_neuron_init
    by (rule phases_stay_nonnegative) (simp_all add: half_draws_def)
  with unit_neuron_init st show ?thesis
    by (simp add: list_all_iff)
qed

subsection \<open>C2: when the self-threshold branch is taken\<close>




subsection \<open>C3: the phase-update law\<close>



subsection \<open>C4: termination of the run\<close>




subsection \<open>C5: the rows of the spike table\<close>




subsection \<open>C6: the rows of the phase table\<close>




subsection \<open>C7: the clock\<close>

text \<open>C7. The clock is meant never to run backwards, but an external source that has just
  fired gets its next arrival time counted from the clock before the step
  (\<open>get_InterSpikeInterval\<close> reads \<open>t\<close> before it is advanced), so the new arrival can
  lie before the present event. In \<open>late_source\<close> the first external spike arrives at
  \<open>0.3\<close> and the next one is placed at \<open>0 + 0.1\<close>: the first step brings the clock to
  \<open>0.3\<close>, the second takes it back to \<open>0.1\<close>.\<close>

theorem clock_runs_backwards:
  "map_sum id t (and_then (System_init [1] [[0]] [1] [1] 1 (1 / 20) [1] [[- 1]] [1] late_draws) (steps 1))
     = Inr (3 / 10) \<and>
   map_sum id t (and_then (System_init [1] [[0]] [1] [1] 1 (1 / 20) [1] [[- 1]] [1] late_draws) (steps 2))
     = Inr (1 / 10)"
  unfolding late_source_init
  by (simp add: numeral_2_eq_2 late_source_step1 late_source_step2 and_then_def)

subsection \<open>C8: what the constructor rejects\<close>

text \<open>C8 as stated fails: nothing is validated. With \<open>K = -1\<close>, a rate of \<open>-1\<close> and one
  value of \<open>I\<close> too many the constructor returns a system (whose weights have changed
  sign).\<close>

theorem unvalidated_construction:
  "map_sum id weight_matrix
     (System_init [1] [[1]] [1, 7] [1] (- 1) (1 / 20) [1] [[1]] [- 1] half_draws)
     = Inr [[- 1, - 1]]"
  by (simp add: init_defs net_defs)

text \<open>C8, amended. The constructor fails exactly when an index runs past the end of a
  parameter list or of a row or column of a strength matrix (\<open>I\<close> or \<open>gamma\<close> shorter than
  the population list, no rate for a non-empty external population, a strength matrix
  too small), or when the rate of a non-empty external population is zero. The sign of
  \<open>K\<close> and of the rates plays no part, and lists longer than needed are accepted.\<close>

theorem System_init_succeeds_iff:
  "(\<exists>s. System_init Ns J_int I0 gam K tau0 Ns_ext J_ext rates0 rnd = Inr s) \<longleftrightarrow>
     length Ns \<le> length I0 \<and> length Ns \<le> length gam \<and>
     (\<forall>n<length Ns_ext. 0 < Ns_ext ! n \<longrightarrow> n < length rates0 \<and> rates0 ! n \<noteq> 0) \<and>
     (\<forall>i<length Ns. \<forall>j<length Ns. i < length J_int \<and> j < length (J_int ! i)) \<and>
     (\<forall>i<length Ns. \<forall>j<length Ns_ext. i < length J_ext \<and> j < length (J_ext ! i))"
proof -
  define s0 where "s0 Ig =
     \<lparr>N = Ns, N_ext = Ns_ext, tau = tau0, I_gamma = Ig, t = 0, events = [],
      rates = rates0, external_events = replicate (sum_list Ns_ext) 1, phases = [],
      weight_matrix = [], rand = rnd, drawn = 0\<rparr>" for Ig
  have src: "N s1 = Ns \<and> N_ext s1 = Ns_ext" if "get_initial_ISI (s0 Ig) = Inr s1" for Ig s1
    using get_initial_ISI_same [OF that] by (simp add: same_sources_def s0_def)
  have isi: "(\<exists>s1. get_initial_ISI (s0 Ig) = Inr s1) =
      (\<forall>n<length Ns_ext. 0 < Ns_ext ! n \<longrightarrow> n < length rates0 \<and> rates0 ! n \<noteq> 0)" for Ig
    by (simp add: get_initial_ISI_ok s0_def)
  have cw: "(\<exists>r. create_weight_matrix s J_int K = Inr r) =
      (\<forall>i<length (N s). \<forall>j<length (N s). i < length J_int \<and> j < length (J_int ! i))" for s
    by (simp add: create_weight_matrix_def rand_matrix_def Let_def and_then_pair_ok connect_ok)
  have cwN: "N (snd r) = N s \<and> N_ext (snd r) = N_ext s" if "create_weight_matrix s J_int K = Inr r" for s r
    using that
    by (auto simp: create_weight_matrix_def rand_matrix_def Let_def and_then_def split: sum.splits)
  have ce: "(\<exists>r. create_ext_weight_matrix s J_ext K = Inr r) =
      (\<forall>i<length (N s). \<forall>j<length (N_ext s). i < length J_ext \<and> j < length (J_ext ! i))" for s
    by (simp add: create_ext_weight_matrix_def rand_matrix_def Let_def and_then_pair_ok connect_ok)
  have init: "System_init Ns J_int I0 gam K tau0 Ns_ext J_ext rates0 rnd =
     and_then (set_I_gamma Ns I0 gam)
       (\<lambda>Ig. and_then (get_initial_ISI (s0 Ig))
          (\<lambda>s. and_then (create_weight_matrix (create_phases s) J_int K)
             (\<lambda>r. and_then (create_ext_weight_matrix (snd r) J_ext K)
                (\<lambda>re. Inr ((snd re)\<lparr>weight_matrix := map2 (@) (fst r) (fst re)\<rparr>)))))"
    by (simp add: System_init_def s0_def case_prod_unfold)
  have bindE: "\<exists>x. m = Inr x \<and> f x = Inr y" if "and_then m f = Inr y"
    for m :: "py_error + 'x" and f :: "'x \<Rightarrow> py_error + 'y" and y
    using that by (cases m) (simp_all add: and_then_def)
  show ?thesis
  proof
    assume "\<exists>s. System_init Ns J_int I0 gam K tau0 Ns_ext J_ext rates0 rnd = Inr s"
    then obtain s where s: "System_init Ns J_int I0 gam K tau0 Ns_ext J_ext rates0 rnd = Inr s" ..
    from bindE [OF s [unfolded init]] obtain Ig where a: "set_I_gamma Ns I0 gam = Inr Ig"
      and s2: "and_then (get_initial_ISI (s0 Ig))
          (\<lambda>s. and_then (create_weight_matrix (create_phases s) J_int K)
             (\<lambda>r. and_then (create_ext_weight_matrix (snd r) J_ext K)
                (\<lambda>re. Inr ((snd re)\<lparr>weight_matrix := map2 (@) (fst r) (fst re)\<rparr>)))) = Inr s"
      by blast
    from bindE [OF s2] obtain s1 where b: "get_initial_ISI (s0 Ig) = Inr s1"
      and s3: "and_then (create_weight_matrix (create_phases s1) J_int K)
             (\<lambda>r. and_then (create_ext_weight_matrix (snd r) J_ext K)
                (\<lambda>re. Inr ((snd re)\<lparr>weight_matrix := map2 (@) (fst r) (fst re)\<rparr>))) = Inr s"
      by blast
    from bindE [OF s3] obtain r where c: "create_weight_matrix (create_phases s1) J_int K = Inr r"
      and s4: "and_then (create_ext_weight_matrix (snd r) J_ext K)
                (\<lambda>re. Inr ((snd re)\<lparr>weight_matrix := map2 (@) (fst r) (fst re)\<rparr>)) = Inr s"
      by blast
    from bindE [OF s4] obtain re where d: "create_ext_weight_matrix (snd r) J_ext K = Inr re"
      by blast
    have n1: "N (create_phases s1) = Ns" "N_ext (create_phases s1) = Ns_ext"
      using src [OF b] by (simp_all add: create_phases_def)
    have n2: "N (snd r) = Ns" "N_ext (snd r) = Ns_ext"
      using cwN [OF c] n1 by simp_all
    have 1: "length Ns \<le> length I0 \<and> length Ns \<le> length gam"
      using a set_I_gamma_ok [of Ns I0 gam] by blast
    have 2: "\<forall>n<length Ns_ext. 0 < Ns_ext ! n \<longrightarrow> n < length rates0 \<and> rates0 ! n \<noteq> 0"
      using b isi [of Ig] by blast
    have 3: "\<forall>i<length Ns. \<forall>j<length Ns. i < length J_int \<and> j < length (J_int ! i)"
      using c cw [of "create_phases s1"] unfolding n1 by blast
    have 4: "\<forall>i<length Ns. \<forall>j<length Ns_ext. i < length J_ext \<and> j < length (J_ext ! i)"
      using d ce [of "snd r"] unfolding n2 by blast
    from 1 2 3 4 show "length Ns \<le> length I0 \<and> length Ns \<le> length gam \<and>
     (\<forall>n<length Ns_ext. 0 < Ns_ext ! n \<longrightarrow> n < length rates0 \<and> rates0 ! n \<noteq> 0) \<and>
     (\<forall>i<length Ns. \<forall>j<length Ns. i < length J_int \<and> j < length (J_int ! i)) \<and>
     (\<forall>i<length Ns. \<forall>j<length Ns_ext. i < length J_ext \<and> j < length (J_ext ! i))"
      by blast
  next
    assume ok: "length Ns \<le> length I0 \<and> length Ns \<le> length gam \<and>
     (\<forall>n<length Ns_ext. 0 < Ns_ext ! n \<longrightarrow> n < length rates0 \<and> rates0 ! n \<noteq> 0) \<and>
     (\<forall>i<length Ns. \<forall>j<length Ns. i < length J_int \<and> j < length (J_int ! i)) \<and>
     (\<forall>i<length Ns. \<forall>j<length Ns_ext. i < length J_ext \<and> j < length (J_ext ! i))"
    then have 1: "length Ns \<le> length I0 \<and> length Ns \<le> length gam"
      and 2: "\<forall>n<length Ns_ext. 0 < Ns_ext ! n \<longrightarrow> n < length rates0 \<and> rates0 ! n \<noteq> 0"
      and 3: "\<forall>i<length Ns. \<forall>j<length Ns. i < length J_int \<and> j < length (J_int ! i)"
      and 4: "\<forall>i<length Ns. \<forall>j<length Ns_ext. i < length J_ext \<and> j < length (J_ext ! i)"
      by simp_all
    from 1 obtain Ig where a: "set_I_gamma Ns I0 gam = Inr Ig"
      using set_I_gamma_ok [of Ns I0 gam] by blast
    from 2 obtain s1 where b: "get_initial_ISI (s0 Ig) = Inr s1"
      using isi [of Ig] by blast
    have n1: "N (create_phases s1) = Ns" "N_ext (create_phases s1) = Ns_ext"
      using src [OF b] by (simp_all add: create_phases_def)
    from 3 obtain r where c: "create_weight_matrix (create_phases s1) J_int K = Inr r"
      using cw [of "create_phases s1"] unfolding n1 by blast
    have n2: "N (snd r) = Ns" "N_ext (snd r) = Ns_ext"
      using cwN [OF c] n1 by simp_all
    from 4 obtain re where d: "create_ext_weight_matrix (snd r) J_ext K = Inr re"
      using ce [of "snd r"] unfolding n2 by blast
    show "\<exists>s. System_init Ns J_int I0 gam K tau0 Ns_ext J_ext rates0 rnd = Inr s"
      unfolding init using a b c d by (simp add: and_then_def)
  qed
qed

theorem System_init_succeeds_iff_witness:
  "(\<exists>s. System_init [1] [[1]] [1, 7] [1] (- 1) (1 / 20) [1] [[1]] [- 1] half_draws = Inr s)
   \<and> \<not> (\<exists>s. System_init [1] [[1]] [] [1] 1 (1 / 20) [1] [[1]] [1] half_draws = Inr s)"
  using System_init_succeeds_iff [of "[1]" "[[1]]" "[1, 7]" "[1]" "- 1" "1 / 20" "[1]" "[[1]]" "[- 1]" half_draws]
    System_init_succeeds_iff [of "[1]" "[[1]]" "[]" "[1]" 1 "1 / 20" "[1]" "[[1]]" "[1]" half_draws]
  by simp

subsection \<open>C9: saturated connectivity\<close>

text \<open>C9. For \<open>K\<close> at least the size of the target population every edge should be present
  with weight \<open>J[i,j]\<close>. With one neuron, \<open>K = 3\<close>, \<open>J = [[1]]\<close> and the draw \<open>0.5\<close> the
  truncation of \<open>0.5 + (1 - 3)\<close> towards zero is \<open>-1\<close>, the entry becomes \<open>1 - (-1) = 2\<close>
  and the edge carries weight \<open>2\<close>.\<close>

theorem saturated_weight_doubled:
  "map_sum id weight_matrix (System_init [1] [[1]] [1] [1] 3 (1 / 20) [] [] [] half_draws)
     = Inr [[2]]"
  by (simp add: init_defs net_defs)

subsection \<open>C10: a zero jump changes nothing\<close>

text \<open>C10. With positive \<open>I\<close> and \<open>gamma\<close>, a zero potential jump for every neuron leaves
  the phase vector unchanged.\<close>

theorem h_zero_jump:
  assumes "length (fst (I_gamma s)) = length (phases s)"
    and "length (snd (I_gamma s)) = length (phases s)"
    and "\<forall>g \<in> set (snd (I_gamma s)). 0 < g"
    and "\<forall>i \<in> set (fst (I_gamma s)). 0 < i"
  shows "h s (replicate (length (phases s)) 0) = phases s"
proof (rule nth_equalityI)
  show "length (h s (replicate (length (phases s)) 0)) = length (phases s)"
    using assms by (simp add: length_h length_log_args)
next
  fix k assume "k < length (h s (replicate (length (phases s)) 0))"
  then have k: "k < length (log_args s (replicate (length (phases s)) 0))"
    by (simp add: length_h)
  then have kp: "k < length (phases s)"
    by (simp add: length_log_args)
  then have "snd (I_gamma s) ! k \<in> set (snd (I_gamma s))" using assms by simp
  then have "0 < snd (I_gamma s) ! k" using assms by blast
  then have g: "snd (I_gamma s) ! k \<noteq> 0" by simp
  show "h s (replicate (length (phases s)) 0) ! k = phases s ! k"
    using k kp g by (simp add: nth_h nth_log_args not_le)
qed

theorem h_zero_jump_witness: "h unit_neuron (replicate (length (phases unit_neuron)) 0) = [1 / 2]"
  using h_zero_jump [of unit_neuron] by (simp add: unit_neuron_def)

end
